theory Spec2Isabelle
  imports Complex_Main "HOL-Library.Sublist" "HOL-Library.Multiset"
begin

section \<open>Characters and character classes\<close>

text \<open>
  Strings are lists of \<^typ>\<open>char\<close>: the code points below 256. On these, the classes
  of Python's \<^verbatim>\<open>re\<close> module for \<^verbatim>\<open>str\<close> patterns are as follows: \<^verbatim>\<open>\d\<close>
  is an ASCII digit, \<^verbatim>\<open>\s\<close> is one of the twelve characters that \<^verbatim>\<open>str.isspace\<close>
  accepts, \<^verbatim>\<open>.\<close> is anything but a line feed, and \<^verbatim>\<open>[a-z]\<close> is the ASCII range.
\<close>

definition is_digit :: "char \<Rightarrow> bool" where
  "is_digit c \<longleftrightarrow> c \<in> set ''0123456789''"

definition is_lower :: "char \<Rightarrow> bool" where
  "is_lower c \<longleftrightarrow> c \<in> set ''abcdefghijklmnopqrstuvwxyz''"

definition is_space :: "char \<Rightarrow> bool" where
  "is_space c \<longleftrightarrow> c \<in> set [CHR 0x09, CHR 0x0A, CHR 0x0B, CHR 0x0C, CHR 0x0D,
     CHR 0x1C, CHR 0x1D, CHR 0x1E, CHR 0x1F, CHR 0x20, CHR 0x85, CHR 0xA0]"

definition not_space :: "char \<Rightarrow> bool" where
  "not_space c \<longleftrightarrow> \<not> is_space c"

definition not_newline :: "char \<Rightarrow> bool" where
  "not_newline c \<longleftrightarrow> c \<noteq> CHR 0x0A"

definition is_dot :: "char \<Rightarrow> bool" where
  "is_dot c \<longleftrightarrow> c = CHR ''.''"

section \<open>The fragment of regular expressions the program uses\<close>

text \<open>
  Every pattern of \<^verbatim>\<open>update_libs.py\<close> is a sequence of atoms, each a single-character
  class or a greedy \<^verbatim>\<open>+\<close> of one. The matcher backtracks as \<^verbatim>\<open>re\<close> does: a greedy
  \<^verbatim>\<open>+\<close> takes the longest run first and gives characters back one at a time until the
  rest of the pattern matches. A successful match returns the text each atom consumed
  and the rest of the input.
\<close>

datatype atom = One "char \<Rightarrow> bool" | Many1 "char \<Rightarrow> bool"

fun first_match :: "(nat \<Rightarrow> 'a option) \<Rightarrow> nat \<Rightarrow> 'a option" where
  "first_match f 0 = None"
| "first_match f (Suc n) = (case f (Suc n) of Some r \<Rightarrow> Some r | None \<Rightarrow> first_match f n)"

primrec match_here :: "atom list \<Rightarrow> string \<Rightarrow> (string list \<times> string) option" where
  "match_here [] s = Some ([], s)"
| "match_here (a # as) s =
     (case a of
        One P \<Rightarrow>
          (case s of
             [] \<Rightarrow> None
           | c # cs \<Rightarrow>
               if P c then map_option (\<lambda>(gs, r). ([c] # gs, r)) (match_here as cs) else None)
      | Many1 P \<Rightarrow>
          first_match
            (\<lambda>n. map_option (\<lambda>(gs, r). (take n s # gs, r)) (match_here as (drop n s)))
            (length (takeWhile P s)))"

text \<open>
  \<^verbatim>\<open>re.sub(pattern, repl, string)\<close>: the leftmost match is replaced and the search goes
  on behind it; where nothing matches, one character is copied. A match that consumed
  nothing (the rest is no shorter than the input) is replaced too, and the search moves
  on by one character.
\<close>

function re_sub :: "atom list \<Rightarrow> (string list \<Rightarrow> string) \<Rightarrow> string \<Rightarrow> string" where
  "re_sub pat repl [] = (case match_here pat [] of Some (gs, r) \<Rightarrow> repl gs | None \<Rightarrow> [])"
| "re_sub pat repl (c # cs) =
     (case match_here pat (c # cs) of
        None \<Rightarrow> c # re_sub pat repl cs
      | Some (gs, r) \<Rightarrow>
          if length r < Suc (length cs) then repl gs @ re_sub pat repl r
          else repl gs @ c # re_sub pat repl cs)"
  by pat_completeness auto
termination
  by (relation "measure (\<lambda>(pat, repl, s). length s)") auto

section \<open>The version converters\<close>

datatype error = TypeError | ValueError | KeyError | IndexError | NameError string

text \<open>\<^verbatim>\<open>re.sub(r'(.+)\.([a-z])', r'\1\2', version)\<close>: groups 1 and 2 are the first and the
  third atom.\<close>

definition openssl_pattern :: "atom list" where
  "openssl_pattern = [Many1 not_newline, One is_dot, One is_lower]"

definition openssl_repl :: "string list \<Rightarrow> string" where
  "openssl_repl gs = gs ! 0 @ gs ! 2"

definition convert_openssl_version :: "string \<Rightarrow> string" where
  "convert_openssl_version version = re_sub openssl_pattern openssl_repl version"

text \<open>
  Python's integers are unbounded, but the interpreter limits the conversions between
  \<^verbatim>\<open>int\<close> and decimal text: with the default setting, a text of more than 4300 digits
  and a number of more than 4300 digits raise \<^verbatim>\<open>ValueError\<close>.
\<close>

definition max_str_digits :: nat where
  "max_str_digits = 4300"

text \<open>\<^verbatim>\<open>int\<close> of a run of digits.\<close>

definition digit_val :: "char \<Rightarrow> nat" where
  "digit_val c = of_char c - 48"

definition digits_value :: "string \<Rightarrow> nat" where
  "digits_value ds = foldl (\<lambda>n c. 10 * n + digit_val c) 0 ds"

definition py_int :: "string \<Rightarrow> error + nat" where
  "py_int ds = (if max_str_digits < length ds then Inl ValueError else Inr (digits_value ds))"

text \<open>The decimal numeral of a number, and the format fields \<^verbatim>\<open>{:d}\<close> and \<^verbatim>\<open>{:02d}\<close>
  of a number that is not negative.\<close>

definition digit_char :: "nat \<Rightarrow> char" where
  "digit_char d = ''0123456789'' ! d"

fun format_d :: "nat \<Rightarrow> string" where
  "format_d n =
     (if n < 10 then [digit_char n]
      else format_d (n div 10) @ [digit_char (n mod 10)])"

declare format_d.simps [simp del]

definition format_02d :: "nat \<Rightarrow> string" where
  "format_02d n = replicate (2 - length (format_d n)) (CHR ''0'') @ format_d n"

definition py_format_d :: "nat \<Rightarrow> error + string" where
  "py_format_d n =
     (if max_str_digits < length (format_d n) then Inl ValueError else Inr (format_d n))"

definition py_format_02d :: "nat \<Rightarrow> error + string" where
  "py_format_02d n =
     (if max_str_digits < length (format_d n) then Inl ValueError else Inr (format_02d n))"

text \<open>An exception ends the evaluation; a value is handed on.\<close>

definition and_then :: "error + 'a \<Rightarrow> ('a \<Rightarrow> error + 'b) \<Rightarrow> error + 'b" where
  "and_then r f = (case r of Inl e \<Rightarrow> Inl e | Inr x \<Rightarrow> f x)"

text \<open>\<^verbatim>\<open>re.match(r'(\d+)\.(\d+)\.(\d+)', version)\<close> returns \<^verbatim>\<open>None\<close> where the pattern does
  not match at the start, and subscripting \<^verbatim>\<open>None\<close> raises \<^verbatim>\<open>TypeError\<close>. Groups 1, 2
  and 3 are the first, third and fifth atom. The three calls of \<^verbatim>\<open>int\<close> are evaluated in
  their order, then the three fields are formatted in theirs.\<close>

definition sqlite_pattern :: "atom list" where
  "sqlite_pattern = [Many1 is_digit, One is_dot, Many1 is_digit, One is_dot, Many1 is_digit]"

definition convert_sqlite_version :: "string \<Rightarrow> error + string" where
  "convert_sqlite_version version =
     (case match_here sqlite_pattern version of
        None \<Rightarrow> Inl TypeError
      | Some (gs, r) \<Rightarrow>
          and_then (py_int (gs ! 0)) (\<lambda>major.
          and_then (py_int (gs ! 2)) (\<lambda>minor.
          and_then (py_int (gs ! 4)) (\<lambda>patch.
          and_then (py_format_d major) (\<lambda>f1.
          and_then (py_format_02d minor) (\<lambda>f2.
          and_then (py_format_02d patch) (\<lambda>f3.
          Inr (f1 @ f2 @ f3 @ ''00''))))))))"

text \<open>The inputs the specification singles out: a string that starts with three groups of
  digits separated by dots, and a string that ends in a dot and one lowercase letter.\<close>

definition three_groups_prefix :: "string \<Rightarrow> bool" where
  "three_groups_prefix s \<longleftrightarrow>
     (\<exists>d1 d2 d3 rest. s = d1 @ ''.'' @ d2 @ ''.'' @ d3 @ rest
        \<and> d1 \<noteq> [] \<and> d2 \<noteq> [] \<and> d3 \<noteq> []
        \<and> list_all is_digit d1 \<and> list_all is_digit d2 \<and> list_all is_digit d3)"

definition letter_suffix :: "string \<Rightarrow> bool" where
  "letter_suffix s = (case rev s of l # d # _ \<Rightarrow> is_dot d \<and> is_lower l | _ \<Rightarrow> False)"

text \<open>What the pattern of the OpenSSL converter looks for: a dot followed by a lowercase
  letter, with a character other than a line feed before the dot, anywhere in the string.\<close>

fun has_dot_letter :: "string \<Rightarrow> bool" where
  "has_dot_letter (a # b # c # cs) =
     ((not_newline a \<and> is_dot b \<and> is_lower c) \<or> has_dot_letter (b # c # cs))"
| "has_dot_letter _ = False"

text \<open>What a successful match says about the text of one atom.\<close>

definition atom_ok :: "atom \<Rightarrow> string \<Rightarrow> bool" where
  "atom_ok a g =
     (case a of One P \<Rightarrow> (\<exists>c. g = [c] \<and> P c) | Many1 P \<Rightarrow> g \<noteq> [] \<and> (\<forall>c\<in>set g. P c))"

section \<open>The package lookup\<close>

text \<open>
  What \<^verbatim>\<open>json.loads\<close> returns. An object is a \<^verbatim>\<open>dict\<close>, given as the list of its
  items, every key once.
\<close>

datatype json =
  JNull | JBool bool | JInt int | JFloat real | JStr string
  | JArr "json list" | JObj "(string \<times> json) list"

text \<open>\<^verbatim>\<open>x[key]\<close> with a string key: a lookup in a dict, \<^verbatim>\<open>TypeError\<close> on every other
  value.\<close>

fun getitem_key :: "json \<Rightarrow> string \<Rightarrow> error + json" where
  "getitem_key (JObj items) key =
     (case map_of items key of None \<Rightarrow> Inl KeyError | Some v \<Rightarrow> Inr v)"
| "getitem_key _ key = Inl TypeError"

text \<open>\<^verbatim>\<open>x[0]\<close>: the first element of a list or the first character of a string,
  \<^verbatim>\<open>IndexError\<close> when there is none; on a dict the key \<^verbatim>\<open>0\<close> is missing, since the
  keys of a parsed object are strings.\<close>

fun getitem_0 :: "json \<Rightarrow> error + json" where
  "getitem_0 (JArr xs) = (case xs of [] \<Rightarrow> Inl IndexError | x # _ \<Rightarrow> Inr x)"
| "getitem_0 (JStr s) = (case s of [] \<Rightarrow> Inl IndexError | c # _ \<Rightarrow> Inr (JStr [c]))"
| "getitem_0 (JObj items) = Inl KeyError"
| "getitem_0 _ = Inl TypeError"

text \<open>
  \<^verbatim>\<open>pkgver\<close>, from the parsed response on: \<^verbatim>\<open>metadata['results'][0]['pkgver']\<close>, an
  \<^verbatim>\<open>IndexError\<close> being turned into a \<^verbatim>\<open>NameError\<close> with the package's name. Every
  other exception propagates.
\<close>

definition pkgver :: "string \<Rightarrow> json \<Rightarrow> error + json" where
  "pkgver package metadata =
     (let found =
        (case getitem_key metadata ''results'' of
           Inl e \<Rightarrow> Inl e
         | Inr results \<Rightarrow>
             (case getitem_0 results of
                Inl e \<Rightarrow> Inl e
              | Inr first \<Rightarrow> getitem_key first ''pkgver''))
      in case found of
           Inl IndexError \<Rightarrow> Inl (NameError (''Package not found: '' @ package))
         | _ \<Rightarrow> found)"

section \<open>The substitution pass over a line\<close>

text \<open>
  The pattern is the f-string \<^verbatim>\<open>f'({prefix}_VER=)\S+'\<close>: the prefix is pasted into the
  regular expression as it is. Where the prefix holds none of the characters that are
  special in a regular expression, the pattern is the literal text followed by a greedy
  run of characters other than white space. A prefix with a special character is outside
  the fragment modelled here, and the result is \<open>None\<close>.
\<close>

definition re_special :: "char \<Rightarrow> bool" where
  "re_special c \<longleftrightarrow> c \<in> set ''.^$*+?{}[]|()'' \<or> c = CHR 0x5C"

definition sub_pattern :: "string \<Rightarrow> atom list option" where
  "sub_pattern pfx =
     (if list_ex re_special pfx then None
      else Some (map (\<lambda>c. One (\<lambda>x. x = c)) (pfx @ ''_VER='') @ [Many1 not_space]))"

text \<open>
  The replacement is the f-string \<^verbatim>\<open>f'\1"{version}"'\<close>. It is not a raw string, so
  \<^verbatim>\<open>\1\<close> is the octal escape of the character with code 1 and no reference to the
  group: the text that replaces a match is that character, a double quote, the version
  and a double quote. \<^verbatim>\<open>re.sub\<close> reads a backslash in the replacement as an escape; a
  version with a backslash is outside the fragment modelled here.
\<close>

definition replacement :: "string \<Rightarrow> string" where
  "replacement version = [CHR 0x01, CHR 0x22] @ version @ [CHR 0x22]"

definition sub_template :: "string \<Rightarrow> string option" where
  "sub_template version =
     (if CHR 0x5C \<in> set version then None else Some (replacement version))"

text \<open>\<^verbatim>\<open>line = re.sub(f'({prefix}_VER=)\S+', f'\1"{version}"', line)\<close>\<close>

definition sub_line :: "string \<Rightarrow> string \<Rightarrow> string \<Rightarrow> string option" where
  "sub_line pfx version line =
     (case sub_pattern pfx of
        None \<Rightarrow> None
      | Some pat \<Rightarrow>
          (case sub_template version of
             None \<Rightarrow> None
           | Some new \<Rightarrow> Some (re_sub pat (\<lambda>gs. new) line)))"

text \<open>The loop over \<^verbatim>\<open>PACKAGES.items()\<close> for one line; a dict is iterated in the order
  of insertion, so the map is the list of its items.\<close>

fun substitute :: "(string \<times> string) list \<Rightarrow> string \<Rightarrow> string option" where
  "substitute [] line = Some line"
| "substitute ((pfx, version) # packages) line =
     (case sub_line pfx version line of
        None \<Rightarrow> None
      | Some line' \<Rightarrow> substitute packages line')"

section \<open>Reading and rewriting the file\<close>

text \<open>
  \<^verbatim>\<open>open(fname, 'r')\<close> reads in text mode with universal newlines: a carriage return
  followed by a line feed, and a carriage return alone, reach the program as one line
  feed. Iterating the file gives its lines, each with the line feed that ends it; the
  last line may have none.
\<close>

fun universal_newlines :: "string \<Rightarrow> string" where
  "universal_newlines (c # d # cs) =
     (if c = CHR 0x0D \<and> d = CHR 0x0A then CHR 0x0A # universal_newlines cs
      else if c = CHR 0x0D then CHR 0x0A # universal_newlines (d # cs)
      else c # universal_newlines (d # cs))"
| "universal_newlines [c] = (if c = CHR 0x0D then [CHR 0x0A] else [c])"
| "universal_newlines [] = []"

primrec lines_from :: "string \<Rightarrow> string \<Rightarrow> string list" where
  "lines_from cur [] = (if cur = [] then [] else [cur])"
| "lines_from cur (c # cs) =
     (if c = CHR 0x0A then (cur @ [c]) # lines_from [] cs else lines_from (cur @ [c]) cs)"

definition read_lines :: "string \<Rightarrow> string list" where
  "read_lines content = lines_from [] (universal_newlines content)"

text \<open>
  \<^verbatim>\<open>open(f'{fname}.new', 'w')\<close> writes in text mode: every line feed is written as the line
  separator of the system, \<^verbatim>\<open>os.linesep\<close>, which is a parameter here.
\<close>

definition write_text :: "string \<Rightarrow> string \<Rightarrow> string" where
  "write_text linesep s = concat (map (\<lambda>c. if c = CHR 0x0A then linesep else [c]) s)"

text \<open>The loop over the lines of the file, lines 105 to 108, and the text of the new file.\<close>

fun rewrite_lines :: "string \<Rightarrow> (string \<times> string) list \<Rightarrow> string list \<Rightarrow> string option" where
  "rewrite_lines linesep packages [] = Some []"
| "rewrite_lines linesep packages (line # lines) =
     (case substitute packages line of
        None \<Rightarrow> None
      | Some out \<Rightarrow>
          map_option (\<lambda>rest. write_text linesep out @ rest)
            (rewrite_lines linesep packages lines))"

definition rewrite_file :: "string \<Rightarrow> (string \<times> string) list \<Rightarrow> string \<Rightarrow> string option" where
  "rewrite_file linesep packages content = rewrite_lines linesep packages (read_lines content)"

section \<open>Assignment tokens\<close>

text \<open>
  The specification's reading of the pass: an assignment token is the text
  \<^verbatim>\<open><PREFIX>_VER=\<close> with a character other than white space behind it, and it reaches as
  far as those characters go. \<open>replace_tokens\<close> scans a line from the left and puts the new
  text in the place of every token it meets.
\<close>

definition assignment :: "string \<Rightarrow> string" where
  "assignment pfx = pfx @ ''_VER=''"

definition token_at :: "string \<Rightarrow> string \<Rightarrow> bool" where
  "token_at lit s \<longleftrightarrow>
     prefix lit s \<and> (case drop (length lit) s of [] \<Rightarrow> False | c # _ \<Rightarrow> not_space c)"

function replace_tokens :: "string \<Rightarrow> string \<Rightarrow> string \<Rightarrow> string" where
  "replace_tokens lit new [] = []"
| "replace_tokens lit new (c # cs) =
     (if token_at lit (c # cs)
      then new @ replace_tokens lit new (dropWhile not_space (drop (length lit) (c # cs)))
      else c # replace_tokens lit new cs)"
  by pat_completeness auto
termination
proof (relation "measure (\<lambda>(lit, new, s). length s)")
  fix lit new :: string and c :: char and cs :: string
  assume t: "token_at lit (c # cs)"
  have "length (dropWhile not_space (drop (length lit) (c # cs))) < Suc (length cs)"
  proof (cases lit)
    case Nil
    with t have "not_space c" by (simp add: token_at_def)
    then show ?thesis
      using Nil length_dropWhile_le [of not_space cs] by (simp add: less_Suc_eq_le)
  next
    case (Cons a l)
    have "length (dropWhile not_space (drop (length l) cs)) \<le> length (drop (length l) cs)"
      by (rule length_dropWhile_le)
    then show ?thesis using Cons by simp
  qed
  then show "((lit, new, dropWhile not_space (drop (length lit) (c # cs))), lit, new, c # cs)
             \<in> measure (\<lambda>(lit, new, s). length s)" by simp
qed simp_all

text \<open>A token of a prefix, as a string of its own, and the place of a token in a line.\<close>

definition is_token :: "string \<Rightarrow> string \<Rightarrow> bool" where
  "is_token pfx tok \<longleftrightarrow>
     prefix (assignment pfx) tok \<and> length (assignment pfx) < length tok
     \<and> list_all not_space (drop (length (assignment pfx)) tok)"

fun has_token :: "string \<Rightarrow> string \<Rightarrow> bool" where
  "has_token pfx [] = False"
| "has_token pfx (c # cs) = (token_at (assignment pfx) (c # cs) \<or> has_token pfx cs)"

text \<open>
  The frame of the pass: \<open>frame pfxs line out\<close> says that \<open>out\<close> is \<open>line\<close> with some
  tokens of the prefixes \<open>pfxs\<close> replaced by other text, each token reaching to the end
  of the line or to a white space character, and with every character outside these
  tokens in its place.
\<close>

inductive frame :: "string list \<Rightarrow> string \<Rightarrow> string \<Rightarrow> bool" for pfxs :: "string list" where
  frame_Nil: "frame pfxs [] []"
| frame_keep: "frame pfxs xs ys \<Longrightarrow> frame pfxs (c # xs) (c # ys)"
| frame_token: "pfx \<in> set pfxs \<Longrightarrow> is_token pfx tok \<Longrightarrow> xs = [] \<or> is_space (hd xs)
     \<Longrightarrow> frame pfxs xs ys \<Longrightarrow> frame pfxs (tok @ xs) (new @ ys)"

text \<open>Prefixes are names of variables: letters, digits and the underscore.\<close>

definition is_name_char :: "char \<Rightarrow> bool" where
  "is_name_char c \<longleftrightarrow>
     c \<in> set ''ABCDEFGHIJKLMNOPQRSTUVWXYZabcdefghijklmnopqrstuvwxyz0123456789_''"

definition name_prefix :: "string \<Rightarrow> bool" where
  "name_prefix pfx \<longleftrightarrow> list_all is_name_char pfx"

text \<open>The pattern of the pass for a literal text, and the maps the theorems are about:
  prefixes that are names, versions without a backslash.\<close>

definition token_pattern :: "string \<Rightarrow> atom list" where
  "token_pattern lit = map (\<lambda>c. One (\<lambda>x. x = c)) lit @ [Many1 not_space]"

definition valid_map :: "(string \<times> string) list \<Rightarrow> bool" where
  "valid_map packages \<longleftrightarrow>
     list_all (\<lambda>(pfx, version). name_prefix pfx \<and> CHR 0x5C \<notin> set version) packages"

text \<open>The passes of a valid map, without the \<open>None\<close> of the unmodelled cases.\<close>

fun passes :: "(string \<times> string) list \<Rightarrow> string \<Rightarrow> string" where
  "passes [] line = line"
| "passes ((pfx, version) # packages) line =
     passes packages (replace_tokens (assignment pfx) (replacement version) line)"

text \<open>What the passes make of a word: the word itself, or its text in front of one of
  its tokens followed by new text that starts with the character of code 1.\<close>

definition word_inv :: "string set \<Rightarrow> string \<Rightarrow> string \<Rightarrow> bool" where
  "word_inv P w cur \<longleftrightarrow>
     cur = w \<or> (\<exists>j z pfx. j < length w \<and> cur = take j w @ CHR 0x01 # z
                  \<and> pfx \<in> P \<and> is_token pfx (drop j w))"


text \<open>One pass of the loop, for an item of the map.\<close>

definition pass :: "string \<times> string \<Rightarrow> string \<Rightarrow> string" where
  "pass item line = replace_tokens (assignment (fst item)) (replacement (snd item)) line"

section \<open>Properties of the matcher\<close>


lemma first_match_SomeD: "first_match f n = Some r \<Longrightarrow> \<exists>k. 0 < k \<and> k \<le> n \<and> f k = Some r"
proof (induction n)
  case 0 then show ?case by simp
next
  case (Suc n)
  show ?case
  proof (cases "f (Suc n)")
    case None
    with Suc.prems have "first_match f n = Some r" by simp
    from Suc.IH[OF this] show ?thesis by (meson le_Suc_eq)
  next
    case (Some a)
    with Suc.prems have "f (Suc n) = Some r" by simp
    then show ?thesis by blast
  qed
qed

lemma first_match_exists: "0 < k \<Longrightarrow> k \<le> n \<Longrightarrow> f k \<noteq> None \<Longrightarrow> first_match f n \<noteq> None"
proof (induction n)
  case 0 then show ?case by simp
next
  case (Suc n)
  then show ?case by (cases "k = Suc n") (auto split: option.splits)
qed


lemma match_here_sound:
  "match_here pat s = Some (gs, r) \<Longrightarrow> s = concat gs @ r \<and> list_all2 atom_ok pat gs"
proof (induction pat arbitrary: s gs r)
  case Nil
  then show ?case by simp
next
  case (Cons a pat)
  show ?case
  proof (cases a)
    case (One P)
    with Cons.prems obtain c cs gs' where s: "s = c # cs" and Pc: "P c"
      and m: "match_here pat cs = Some (gs', r)" and gs: "gs = [c] # gs'"
      by (auto split: list.splits if_splits)
    from Cons.IH[OF m] show ?thesis using s Pc gs One by (simp add: atom_ok_def)
  next
    case (Many1 P)
    with Cons.prems have "first_match
            (\<lambda>n. map_option (\<lambda>(gs, r). (take n s # gs, r)) (match_here pat (drop n s)))
            (length (takeWhile P s)) = Some (gs, r)" by simp
    from first_match_SomeD[OF this] obtain k gs' where k: "0 < k" "k \<le> length (takeWhile P s)"
      and m: "match_here pat (drop k s) = Some (gs', r)" and gs: "gs = take k s # gs'"
      by auto
    have "take k s = take k (takeWhile P s)"
      using k(2) by (metis takeWhile_eq_take take_take min.absorb1)
    then have all: "\<forall>c\<in>set (take k s). P c"
      by (metis in_set_takeD set_takeWhileD)
    have "k \<le> length s" using k(2) length_takeWhile_le le_trans by blast
    then have ne: "take k s \<noteq> []" using k(1) by auto
    from Cons.IH[OF m] show ?thesis using gs all ne Many1
      by (simp add: atom_ok_def) (metis append_take_drop_id)
  qed
qed

text \<open>A greedy run that the rest of the pattern accepts at its full length.\<close>

lemma match_many1_longest:
  assumes "takeWhile P s = g" "g \<noteq> []" "match_here pat (drop (length g) s) = Some (gs, r)"
  shows "match_here (Many1 P # pat) s = Some (g # gs, r)"
proof -
  obtain n where n: "length g = Suc n" using assms(2) by (cases g) auto
  have "take (length g) s = g" using assms(1) by (metis takeWhile_eq_take)
  then show ?thesis using assms n by simp
qed

lemma takeWhile_run:
  "\<forall>c\<in>set g. P c \<Longrightarrow> r = [] \<or> \<not> P (hd r) \<Longrightarrow> takeWhile P (g @ r) = g"
  by (cases r) (auto simp: takeWhile_append2  takeWhile_tail)

lemma not_digit_dot: "\<not> is_digit (CHR ''.'')"
  by (simp add: is_digit_def)

lemma sqlite_match:
  assumes "d1 \<noteq> []" "d2 \<noteq> []" "d3 \<noteq> []" "\<forall>c\<in>set d1. is_digit c" "\<forall>c\<in>set d2. is_digit c"
    "\<forall>c\<in>set d3. is_digit c" "rest = [] \<or> \<not> is_digit (hd rest)"
  shows "match_here sqlite_pattern (d1 @ ''.'' @ d2 @ ''.'' @ d3 @ rest)
         = Some ([d1, ''.'', d2, ''.'', d3], rest)"
proof -
  have m3: "match_here [Many1 is_digit] (d3 @ rest) = Some ([d3], rest)"
    by (rule match_many1_longest[OF takeWhile_run]) (use assms in auto)
  have m2: "match_here [Many1 is_digit, One is_dot, Many1 is_digit] (d2 @ ''.'' @ d3 @ rest)
            = Some ([d2, ''.'', d3], rest)"
    by (rule match_many1_longest[OF takeWhile_run])
       (use assms m3 in \<open>auto simp: not_digit_dot is_dot_def\<close>)
  show ?thesis unfolding sqlite_pattern_def
    by (rule match_many1_longest[OF takeWhile_run])
       (use assms m2 in \<open>auto simp: not_digit_dot is_dot_def\<close>)
qed


section \<open>The SQLite converter\<close>


lemma sqlite_match_iff: "match_here sqlite_pattern s \<noteq> None \<longleftrightarrow> three_groups_prefix s"
proof
  assume "match_here sqlite_pattern s \<noteq> None"
  then obtain gs r where m: "match_here sqlite_pattern s = Some (gs, r)" by auto
  from match_here_sound[OF m] have s: "s = concat gs @ r"
    and ok: "list_all2 atom_ok sqlite_pattern gs" by auto
  from ok obtain g1 g2 g3 g4 g5 where gs: "gs = [g1, g2, g3, g4, g5]"
    and a: "atom_ok (Many1 is_digit) g1" "atom_ok (One is_dot) g2" "atom_ok (Many1 is_digit) g3"
       "atom_ok (One is_dot) g4" "atom_ok (Many1 is_digit) g5"
    unfolding sqlite_pattern_def by (auto simp: list_all2_Cons1)
  from a have "g2 = ''.''" "g4 = ''.''" by (auto simp: atom_ok_def is_dot_def)
  moreover from a have "g1 \<noteq> []" "g3 \<noteq> []" "g5 \<noteq> []"
    "list_all is_digit g1" "list_all is_digit g3" "list_all is_digit g5"
    by (auto simp: atom_ok_def list_all_iff)
  ultimately show "three_groups_prefix s" unfolding three_groups_prefix_def
    using s gs by (intro exI[of _ g1] exI[of _ g3] exI[of _ g5] exI[of _ r]) simp
next
  assume "three_groups_prefix s"
  then obtain d1 d2 d3 rest where s: "s = d1 @ ''.'' @ d2 @ ''.'' @ d3 @ rest"
    and d: "d1 \<noteq> []" "d2 \<noteq> []" "d3 \<noteq> []" "list_all is_digit d1" "list_all is_digit d2"
      "list_all is_digit d3"
    unfolding three_groups_prefix_def by blast
  let ?d3 = "d3 @ takeWhile is_digit rest" and ?r = "dropWhile is_digit rest"
  have "match_here sqlite_pattern (d1 @ ''.'' @ d2 @ ''.'' @ ?d3 @ ?r)
         = Some ([d1, ''.'', d2, ''.'', ?d3], ?r)"
  proof (rule sqlite_match)
    show "?r = [] \<or> \<not> is_digit (hd ?r)" using hd_dropWhile [of is_digit rest] by blast
    show "\<forall>c\<in>set ?d3. is_digit c" using d by (auto simp: list_all_iff dest: set_takeWhileD)
  qed (use d in \<open>auto simp: list_all_iff\<close>)
  then show "match_here sqlite_pattern s \<noteq> None" using s by simp
qed

lemma format_02d_eq: "format_02d n = (if n < 10 then CHR ''0'' # format_d n else format_d n)"
proof (cases "n < 10")
  case True
  then have "format_d n = [digit_char n]" by (subst format_d.simps) simp
  then show ?thesis using True by (simp add: format_02d_def numeral_2_eq_2)
next
  case False
  have "format_d (n div 10) \<noteq> []" by (subst format_d.simps) simp
  then have "2 \<le> length (format_d n)"
    using False by (subst format_d.simps) (cases "format_d (n div 10)", simp_all)
  then show ?thesis using False by (simp add: format_02d_def)
qed

lemma digit_val_digit_char: "d < 10 \<Longrightarrow> digit_val (digit_char d) = d"
proof -
  have "list_all (\<lambda>d. digit_val (digit_char d) = d) [0, 1, 2, 3, 4, 5, 6, 7, 8, 9]"
    by (simp add: digit_char_def digit_val_def)
  moreover assume "d < 10"
  then have "d \<in> set [0, 1, 2, 3, 4, 5, 6, 7, 8, 9]" by (simp, arith)
  ultimately show ?thesis unfolding list_all_iff by blast
qed

lemma digits_value_snoc: "digits_value (ds @ [c]) = 10 * digits_value ds + digit_val c"
  by (simp add: digits_value_def)

text \<open>\<open>format_d\<close> writes the decimal numeral of a number: reading it back gives the number.\<close>

lemma digits_value_format_d: "digits_value (format_d n) = n"
proof (induction n rule: format_d.induct)
  case (1 n)
  show ?case
  proof (cases "n < 10")
    case True
    then have "format_d n = [digit_char n]" by (subst format_d.simps) simp
    then show ?thesis using True digit_val_digit_char [of n] by (simp add: digits_value_def)
  next
    case False
    then have "format_d n = format_d (n div 10) @ [digit_char (n mod 10)]"
      by (subst format_d.simps) simp
    then show ?thesis
      using 1 [OF False] digit_val_digit_char [of "n mod 10"] by (simp add: digits_value_snoc)
  qed
qed

text \<open>A number read from a run of digits prints with no more digits than were read, so
  the limit on printing is not reached where the limit on reading is kept.\<close>

lemma digit_val_less: "is_digit c \<Longrightarrow> digit_val c < 10"
proof -
  have "list_all (\<lambda>c. digit_val c < 10) ''0123456789''" by (simp add: digit_val_def)
  moreover assume "is_digit c"
  ultimately show ?thesis unfolding list_all_iff is_digit_def by blast
qed

lemma digits_value_less: "list_all is_digit ds \<Longrightarrow> digits_value ds < 10 ^ length ds"
proof (induction ds rule: rev_induct)
  case Nil
  then show ?case by (simp add: digits_value_def)
next
  case (snoc c ds)
  then have "digits_value ds < 10 ^ length ds" "digit_val c < 10"
    using digit_val_less by simp_all
  then show ?case by (simp add: digits_value_snoc)
qed

lemma format_d_length: "n < 10 ^ k \<Longrightarrow> 0 < k \<Longrightarrow> length (format_d n) \<le> k"
proof (induction n arbitrary: k rule: format_d.induct)
  case (1 n)
  show ?case
  proof (cases "n < 10")
    case True
    then have "format_d n = [digit_char n]" by (subst format_d.simps) simp
    then show ?thesis using 1(3) by simp
  next
    case False
    then have f: "format_d n = format_d (n div 10) @ [digit_char (n mod 10)]"
      by (subst format_d.simps) simp
    obtain j where k: "k = Suc j" using 1(3) by (cases k) auto
    have "0 < j" using False 1(2) k by (cases j) auto
    moreover have "n div 10 < 10 ^ j" using 1(2) k by (simp add: less_mult_imp_div_less)
    ultimately have "length (format_d (n div 10)) \<le> j" using 1(1) [OF False] by blast
    then show ?thesis using f k by simp
  qed
qed

lemma py_format_read:
  assumes "list_all is_digit ds" "ds \<noteq> []" "length ds \<le> 4300"
  shows "py_int ds = Inr (digits_value ds)"
    and "py_format_d (digits_value ds) = Inr (format_d (digits_value ds))"
    and "py_format_02d (digits_value ds) = Inr (format_02d (digits_value ds))"
proof -
  have "length (format_d (digits_value ds)) \<le> length ds"
    using digits_value_less [OF assms(1)] assms(2) by (intro format_d_length) simp_all
  then have "\<not> max_str_digits < length (format_d (digits_value ds))"
    using assms(3) by (simp add: max_str_digits_def)
  then show "py_format_d (digits_value ds) = Inr (format_d (digits_value ds))"
    and "py_format_02d (digits_value ds) = Inr (format_02d (digits_value ds))"
    by (simp_all add: py_format_d_def py_format_02d_def)
  show "py_int ds = Inr (digits_value ds)"
    using assms(3) by (simp add: py_int_def max_str_digits_def)
qed

text \<open>
  Claim C4, as stated, fails on a group of more than 4300 digits: the input starts with
  three groups of digits, and \<^verbatim>\<open>int\<close> raises \<^verbatim>\<open>ValueError\<close> on the first.
\<close>

theorem convert_sqlite_version_long_counterexample:
  "three_groups_prefix (replicate 4301 (CHR ''1'') @ ''.1.1'')
   \<and> convert_sqlite_version (replicate 4301 (CHR ''1'') @ ''.1.1'') = Inl ValueError"
proof -
  let ?d = "replicate 4301 (CHR ''1'')"
  have m: "match_here sqlite_pattern (?d @ ''.'' @ ''1'' @ ''.'' @ ''1'' @ [])
         = Some ([?d, ''.'', ''1'', ''.'', ''1''], [])"
    by (rule sqlite_match) (simp_all add: is_digit_def)
  then have "match_here sqlite_pattern (?d @ ''.1.1'') \<noteq> None" by simp
  then have "three_groups_prefix (?d @ ''.1.1'')" by (simp only: sqlite_match_iff)
  moreover have "py_int ?d = Inl ValueError" by (simp add: py_int_def max_str_digits_def)
  then have "convert_sqlite_version (?d @ ''.1.1'') = Inl ValueError"
    using m by (simp add: convert_sqlite_version_def and_then_def)
  ultimately show ?thesis by (rule conjI)
qed

text \<open>
  Claim C4, amended. An input that starts with three groups of digits separated by dots,
  each of at most 4300 digits and the third ending where the digits end, is converted to
  the major number in decimal, the minor and the patch number in decimal with a zero in
  front when they are below ten, and \<^verbatim>\<open>00\<close>; what follows the third group is ignored.
\<close>

theorem convert_sqlite_version_prefix:
  assumes "d1 \<noteq> []" "d2 \<noteq> []" "d3 \<noteq> []"
    and "list_all is_digit d1" "list_all is_digit d2" "list_all is_digit d3"
    and "length d1 \<le> 4300" "length d2 \<le> 4300" "length d3 \<le> 4300"
    and "rest = [] \<or> \<not> is_digit (hd rest)"
  shows "convert_sqlite_version (d1 @ ''.'' @ d2 @ ''.'' @ d3 @ rest)
         = Inr (format_d (digits_value d1)
                @ (if digits_value d2 < 10 then ''0'' else []) @ format_d (digits_value d2)
                @ (if digits_value d3 < 10 then ''0'' else []) @ format_d (digits_value d3)
                @ ''00'')"
proof -
  have "match_here sqlite_pattern (d1 @ ''.'' @ d2 @ ''.'' @ d3 @ rest)
         = Some ([d1, ''.'', d2, ''.'', d3], rest)"
    by (rule sqlite_match) (use assms in \<open>auto simp: list_all_iff\<close>)
  then show ?thesis
    using py_format_read [OF assms(4,1,7)] py_format_read [OF assms(5,2,8)]
      py_format_read [OF assms(6,3,9)]
    by (simp add: convert_sqlite_version_def and_then_def format_02d_eq)
qed

theorem convert_sqlite_version_prefix_witness:
  "convert_sqlite_version ''3.24.0'' = Inr ''3240000''
   \<and> convert_sqlite_version ''3.8.5'' = Inr ''3080500''
   \<and> convert_sqlite_version ''3.8.5-2'' = Inr ''3080500''"
  using convert_sqlite_version_prefix [of "''3''" "''24''" "''0''" "[]"]
    convert_sqlite_version_prefix [of "''3''" "''8''" "''5''" "[]"]
    convert_sqlite_version_prefix [of "''3''" "''8''" "''5''" "''-2''"]
  by (simp add: is_digit_def digits_value_def digit_val_def digit_char_def format_d.simps)

text \<open>
  Claim C5. An input that does not start with three groups of digits separated by dots
  makes the converter fail: \<^verbatim>\<open>re.match\<close> returns \<^verbatim>\<open>None\<close>, the subscript raises
  \<^verbatim>\<open>TypeError\<close>, and no string is returned.
\<close>

theorem convert_sqlite_version_malformed:
  "\<not> three_groups_prefix s \<Longrightarrow> convert_sqlite_version s = Inl TypeError"
proof -
  assume "\<not> three_groups_prefix s"
  then have "match_here sqlite_pattern s = None" using sqlite_match_iff [of s] by blast
  then show ?thesis by (simp add: convert_sqlite_version_def)
qed

theorem convert_sqlite_version_malformed_witness:
  "\<not> three_groups_prefix ''abc'' \<and> convert_sqlite_version ''abc'' = Inl TypeError
   \<and> \<not> three_groups_prefix ''3.24'' \<and> convert_sqlite_version ''3.24'' = Inl TypeError"
proof -
  have e1: "match_here sqlite_pattern ''abc'' = None"
    by (simp add: sqlite_pattern_def is_digit_def is_dot_def)
  have e2: "match_here sqlite_pattern ''3.24'' = None"
    by (simp add: sqlite_pattern_def is_digit_def is_dot_def)
  have h1: "\<not> three_groups_prefix ''abc''" using sqlite_match_iff [of "''abc''"] e1 by simp
  have h2: "\<not> three_groups_prefix ''3.24''" using sqlite_match_iff [of "''3.24''"] e2 by simp
  show ?thesis
    using h1 h2 convert_sqlite_version_malformed [OF h1] convert_sqlite_version_malformed [OF h2]
    by simp
qed


section \<open>The OpenSSL converter\<close>


lemma lower_not_dot: "is_lower c \<Longrightarrow> \<not> is_dot c"
  by (auto simp: is_lower_def is_dot_def)

lemma lower_not_newline: "is_lower c \<Longrightarrow> not_newline c"
  by (auto simp: is_lower_def not_newline_def)

lemma openssl_match_end:
  assumes "x \<noteq> []" "\<forall>c\<in>set x. not_newline c" "is_lower l"
  shows "match_here openssl_pattern (x @ ''.'' @ [l]) = Some ([x, ''.'', [l]], [])"
proof -
  let ?s = "x @ ''.'' @ [l]"
  let ?f = "\<lambda>n. map_option (\<lambda>(gs, r). (take n ?s # gs, r))
              (match_here [One is_dot, One is_lower] (drop n ?s))"
  obtain n where n: "length x = Suc n" using assms(1) by (cases x) auto
  have "\<forall>c\<in>set ?s. not_newline c"
    using assms lower_not_newline by (auto simp: not_newline_def)
  then have tw: "takeWhile not_newline ?s = ?s" by (simp only: takeWhile_eq_all_conv)
  have len: "length (takeWhile not_newline ?s) = Suc (Suc (length x))"
    unfolding tw by simp
  have f3: "?f (Suc (Suc (length x))) = None" by simp
  have f2: "?f (Suc (length x)) = None" using lower_not_dot [OF assms(3)] by simp
  have f1: "?f (length x) = Some ([x, ''.'', [l]], [])" using assms(3) by (simp add: is_dot_def)
  have "first_match ?f (Suc (Suc (length x))) = Some ([x, ''.'', [l]], [])"
    using f3 f2 f1 by (simp add: n)
  then show ?thesis unfolding openssl_pattern_def match_here.simps atom.case len .
qed

lemma re_sub_no_match:
  "(\<And>t. suffix t s \<Longrightarrow> match_here pat t = None) \<Longrightarrow> re_sub pat repl s = s"
proof (induction s)
  case Nil
  then show ?case by simp
next
  case (Cons c cs)
  have "match_here pat (c # cs) = None" using Cons.prems by simp
  moreover have "re_sub pat repl cs = cs"
    by (rule Cons.IH) (simp add: Cons.prems suffix_Cons)
  ultimately show ?case by simp
qed

lemma has_dot_letter_Cons: "has_dot_letter cs \<Longrightarrow> has_dot_letter (c # cs)"
  by (cases cs rule: has_dot_letter.cases) auto

lemma has_dot_letter_suffix: "suffix t s \<Longrightarrow> has_dot_letter t \<Longrightarrow> has_dot_letter s"
  by (induction s) (auto simp: suffix_Cons has_dot_letter_Cons)

lemma has_dot_letter_run:
  "x \<noteq> [] \<Longrightarrow> not_newline (last x) \<Longrightarrow> is_dot d \<Longrightarrow> is_lower l \<Longrightarrow> has_dot_letter (x @ d # l # r)"
proof (induction x)
  case Nil
  then show ?case by simp
next
  case (Cons a x)
  show ?case
  proof (cases x)
    case Nil
    with Cons.prems show ?thesis by simp
  next
    case (Cons b y)
    with Cons.prems Cons.IH have "has_dot_letter (x @ d # l # r)" by simp
    then show ?thesis using has_dot_letter_Cons by simp
  qed
qed

lemma openssl_matchD:
  assumes "match_here openssl_pattern s = Some (gs, r)"
  shows "\<exists>x d l. gs = [x, [d], [l]] \<and> s = x @ d # l # r \<and> x \<noteq> []
           \<and> (\<forall>c\<in>set x. not_newline c) \<and> is_dot d \<and> is_lower l"
proof -
  from match_here_sound[OF assms] have s: "s = concat gs @ r"
    and ok: "list_all2 atom_ok openssl_pattern gs" by auto
  from ok obtain g1 g2 g3 where gs: "gs = [g1, g2, g3]"
    and a: "atom_ok (Many1 not_newline) g1" "atom_ok (One is_dot) g2" "atom_ok (One is_lower) g3"
    unfolding openssl_pattern_def by (auto simp: list_all2_Cons1)
  from a obtain d l where "g2 = [d]" "is_dot d" "g3 = [l]" "is_lower l"
    by (auto simp: atom_ok_def)
  moreover from a have "g1 \<noteq> []" "\<forall>c\<in>set g1. not_newline c" by (auto simp: atom_ok_def)
  ultimately show ?thesis using s gs by simp
qed

lemma openssl_match_has_dot_letter:
  assumes "match_here openssl_pattern s \<noteq> None" shows "has_dot_letter s"
proof -
  from assms obtain gs r where "match_here openssl_pattern s = Some (gs, r)" by auto
  from openssl_matchD[OF this] obtain x d l where "s = x @ d # l # r" "x \<noteq> []"
    "\<forall>c\<in>set x. not_newline c" "is_dot d" "is_lower l" by blast
  then show ?thesis using has_dot_letter_run [of x d l r] by simp
qed

lemma openssl_match_head:
  assumes "not_newline a" "is_dot b" "is_lower c"
  shows "match_here openssl_pattern (a # b # c # cs) \<noteq> None"
proof -
  let ?s = "a # b # c # cs"
  let ?f = "\<lambda>n. map_option (\<lambda>(gs, r). (take n ?s # gs, r))
              (match_here [One is_dot, One is_lower] (drop n ?s))"
  have "?f (Suc 0) \<noteq> None" using assms by simp
  moreover have "Suc 0 \<le> length (takeWhile not_newline ?s)" using assms by simp
  ultimately have "first_match ?f (length (takeWhile not_newline ?s)) \<noteq> None"
    using first_match_exists [where f = ?f and k = "Suc 0"] by simp
  then show ?thesis unfolding openssl_pattern_def by simp
qed

lemma openssl_sub_length: "length (re_sub openssl_pattern openssl_repl s) \<le> length s"
proof (induction openssl_pattern openssl_repl s rule: re_sub.induct)
  case 1
  then show ?case by (simp add: openssl_pattern_def)
next
  case (2 c cs)
  show ?case
  proof (cases "match_here openssl_pattern (c # cs)")
    case None
    with 2 show ?thesis by simp
  next
    case (Some a)
    then obtain gs r where m: "match_here openssl_pattern (c # cs) = Some (gs, r)"
      by (cases a) auto
    from openssl_matchD[OF m] obtain x d l where x: "gs = [x, [d], [l]]" "c # cs = x @ d # l # r"
      by blast
    have len: "Suc (length cs) = length x + 2 + length r"
      using arg_cong[OF x(2), of length] by simp
    then have lr: "length r < Suc (length cs)" by simp
    have "length (re_sub openssl_pattern openssl_repl r) \<le> length r"
      using 2(2)[OF m refl lr] .
    moreover have "openssl_repl gs = x @ [l]" using x(1) by (simp add: openssl_repl_def)
    ultimately show ?thesis using m lr len by simp
  qed
qed

lemma openssl_sub_shorter:
  "has_dot_letter s \<Longrightarrow> length (re_sub openssl_pattern openssl_repl s) < length s"
proof (induction s)
  case Nil
  then show ?case by simp
next
  case (Cons c cs)
  show ?case
  proof (cases "match_here openssl_pattern (c # cs)")
    case None
    have "has_dot_letter cs"
    proof (rule ccontr)
      assume n: "\<not> has_dot_letter cs"
      with Cons.prems obtain b e es where "cs = b # e # es" "not_newline c" "is_dot b" "is_lower e"
        by (cases "c # cs" rule: has_dot_letter.cases) auto
      with openssl_match_head None show False by blast
    qed
    with Cons.IH None show ?thesis by simp
  next
    case (Some a)
    then obtain gs r where m: "match_here openssl_pattern (c # cs) = Some (gs, r)"
      by (cases a) auto
    from openssl_matchD[OF m] obtain x d l where x: "gs = [x, [d], [l]]" "c # cs = x @ d # l # r"
      by blast
    have len: "Suc (length cs) = length x + 2 + length r"
      using arg_cong[OF x(2), of length] by simp
    then have lr: "length r < Suc (length cs)" by simp
    have "openssl_repl gs = x @ [l]" using x(1) by (simp add: openssl_repl_def)
    then show ?thesis using m lr len openssl_sub_length [of r] by simp
  qed
qed


text \<open>
  Claim C3. On an input \<^verbatim>\<open>MAJOR.MINOR.PATCH.letter\<close>, the letter being one of
  \<^verbatim>\<open>a\<close> to \<^verbatim>\<open>z\<close> and the three components holding no line feed, the converter
  removes the dot before the letter and nothing else.
\<close>

theorem convert_openssl_version_letter:
  assumes "\<forall>c\<in>set (major @ minor @ patch). not_newline c" and "is_lower l"
  shows "convert_openssl_version (major @ ''.'' @ minor @ ''.'' @ patch @ ''.'' @ [l])
         = major @ ''.'' @ minor @ ''.'' @ patch @ [l]"
proof -
  let ?x = "major @ ''.'' @ minor @ ''.'' @ patch"
  have x: "?x \<noteq> []" "\<forall>c\<in>set ?x. not_newline c"
    using assms(1) by (auto simp: not_newline_def)
  have m: "match_here openssl_pattern (?x @ ''.'' @ [l]) = Some ([?x, ''.'', [l]], [])"
    by (rule openssl_match_end [OF x assms(2)])
  obtain c cs where s: "?x @ ''.'' @ [l] = c # cs" by (cases "?x @ ''.'' @ [l]") auto
  have "re_sub openssl_pattern openssl_repl (c # cs) = ?x @ [l]"
    using m unfolding s by (simp add: openssl_repl_def openssl_pattern_def)
  then show ?thesis unfolding convert_openssl_version_def using s by simp
qed

theorem convert_openssl_version_letter_witness:
  "convert_openssl_version ''1.0.2.o'' = ''1.0.2o''"
  using convert_openssl_version_letter [of "''1''" "''0''" "''2''" "CHR ''o''"]
  by (simp add: not_newline_def is_lower_def)

text \<open>
  Claim C2, as the specification words it, fails: the pattern is not anchored at the end
  of the string, so a dot before a lowercase letter is removed wherever it stands.
\<close>

theorem convert_openssl_version_suffix_counterexample:
  "\<not> letter_suffix ''1.0.0.beta1''
   \<and> convert_openssl_version ''1.0.0.beta1'' = ''1.0.0beta1''
   \<and> convert_openssl_version ''1.0.0.beta1'' \<noteq> ''1.0.0.beta1''"
  by (simp add: letter_suffix_def convert_openssl_version_def openssl_pattern_def
      openssl_repl_def not_newline_def is_dot_def is_lower_def)

text \<open>
  Claim C2, amended. The converter returns its input unchanged exactly when the input
  has no dot that is followed by a lowercase letter and comes after a character other
  than a line feed; the string \<^verbatim>\<open>1.0.2\<close> is such an input.
\<close>

theorem convert_openssl_version_unchanged:
  "convert_openssl_version s = s \<longleftrightarrow> \<not> has_dot_letter s"
proof
  assume eq: "convert_openssl_version s = s"
  show "\<not> has_dot_letter s"
  proof
    assume "has_dot_letter s"
    from openssl_sub_shorter [OF this] eq show False
      by (simp add: convert_openssl_version_def)
  qed
next
  assume n: "\<not> has_dot_letter s"
  have "re_sub openssl_pattern openssl_repl s = s"
  proof (rule re_sub_no_match)
    fix t assume "suffix t s"
    with n have "\<not> has_dot_letter t" using has_dot_letter_suffix by blast
    then show "match_here openssl_pattern t = None"
      using openssl_match_has_dot_letter by blast
  qed
  then show "convert_openssl_version s = s" by (simp add: convert_openssl_version_def)
qed

theorem convert_openssl_version_unchanged_witness:
  "\<not> has_dot_letter ''1.0.2'' \<and> convert_openssl_version ''1.0.2'' = ''1.0.2''"
  using convert_openssl_version_unchanged [of "''1.0.2''"]
  by (simp add: is_lower_def)

section \<open>The package lookup: results\<close>

text \<open>
  Claim C9. When the \<^verbatim>\<open>results\<close> array of the parsed response is empty, the lookup
  fails with the error whose message is \<^verbatim>\<open>Package not found:\<close> and the name of the
  requested package; when the array's first element is an object with a \<^verbatim>\<open>pkgver\<close>
  field, the lookup returns that field.
\<close>

theorem pkgver_results:
  "(map_of items ''results'' = Some (JArr []) \<longrightarrow>
      pkgver package (JObj items) = Inl (NameError (''Package not found: '' @ package)))
   \<and> (map_of items ''results'' = Some (JArr (JObj first # more)) \<and>
        map_of first ''pkgver'' = Some v \<longrightarrow>
      pkgver package (JObj items) = Inr v)"
  by (simp add: pkgver_def)

theorem pkgver_results_witness:
  "pkgver ''nosuchpkg'' (JObj [(''version'', JInt 2), (''results'', JArr [])])
     = Inl (NameError ''Package not found: nosuchpkg'')
   \<and> pkgver ''zlib''
        (JObj [(''results'',
                JArr [JObj [(''pkgname'', JStr ''zlib''), (''pkgver'', JStr ''1.3.1'')],
                      JObj [(''pkgname'', JStr ''zlib''), (''pkgver'', JStr ''1.2.0'')]])])
     = Inr (JStr ''1.3.1'')"
  using pkgver_results [where items = "[(''version'', JInt 2), (''results'', JArr [])]"
      and package = "''nosuchpkg''"]
    pkgver_results [where items = "[(''results'',
                JArr [JObj [(''pkgname'', JStr ''zlib''), (''pkgver'', JStr ''1.3.1'')],
                      JObj [(''pkgname'', JStr ''zlib''), (''pkgver'', JStr ''1.2.0'')]])]"
      and first = "[(''pkgname'', JStr ''zlib''), (''pkgver'', JStr ''1.3.1'')]"
      and more = "[JObj [(''pkgname'', JStr ''zlib''), (''pkgver'', JStr ''1.2.0'')]]"
      and v = "JStr ''1.3.1''" and package = "''zlib''"]
  by simp

section \<open>The pattern of the pass finds the assignment tokens\<close>


lemma token_at_Nil [simp]: "\<not> token_at lit []"
  by (simp add: token_at_def)

lemma token_at_Cons_Cons [simp]: "token_at (a # l) (c # cs) \<longleftrightarrow> a = c \<and> token_at l cs"
  by (auto simp: token_at_def)

lemma token_at_empty_lit: "token_at [] s \<longleftrightarrow> s \<noteq> [] \<and> not_space (hd s)"
  by (cases s) (auto simp: token_at_def)


lemma match_run:
  "map_option snd (match_here [Many1 P] s)
   = (if s \<noteq> [] \<and> P (hd s) then Some (dropWhile P s) else None)"
proof (cases "takeWhile P s")
  case Nil
  then have "s = [] \<or> \<not> P (hd s)" by (cases s) (auto split: if_splits)
  with Nil show ?thesis by auto
next
  case (Cons a l)
  then obtain n where n: "length (takeWhile P s) = Suc n" by simp
  have "s \<noteq> [] \<and> P (hd s)" using Cons by (cases s) (auto split: if_splits)
  moreover have "drop (Suc n) s = dropWhile P s" using n by (metis dropWhile_eq_drop)
  ultimately show ?thesis using n by simp
qed

lemma match_token:
  "map_option snd (match_here (token_pattern lit) s)
   = (if token_at lit s then Some (dropWhile not_space (drop (length lit) s)) else None)"
proof (induction lit arbitrary: s)
  case Nil
  show ?case using match_run [of not_space s]
    by (simp add: token_pattern_def token_at_empty_lit)
next
  case (Cons a l)
  show ?case
  proof (cases s)
    case Nil
    then show ?thesis by (simp add: token_pattern_def)
  next
    case (Cons c cs)
    show ?thesis
    proof (cases "c = a")
      case True
      have "map_option snd (match_here (token_pattern (a # l)) (c # cs))
            = map_option snd (match_here (token_pattern l) cs)"
        using True by (simp add: token_pattern_def option.map_comp comp_def case_prod_unfold)
      then show ?thesis using Cons.IH [of cs] True Cons by auto
    next
      case False
      then show ?thesis using Cons by (auto simp: token_pattern_def)
    qed
  qed
qed

lemma token_rest_shorter:
  "token_at lit s \<Longrightarrow> length (dropWhile not_space (drop (length lit) s)) < length s"
proof (cases lit)
  case Nil
  assume "token_at lit s"
  with Nil obtain c cs where "s = c # cs" "not_space c"
    by (cases s) (auto simp: token_at_empty_lit)
  then show ?thesis using Nil length_dropWhile_le [of not_space cs] by (simp add: less_Suc_eq_le)
next
  case (Cons a l)
  assume "token_at lit s"
  with Cons obtain cs where s: "s = a # cs" by (cases s) auto
  have "length (dropWhile not_space (drop (length l) cs)) \<le> length (drop (length l) cs)"
    by (rule length_dropWhile_le)
  then show ?thesis using Cons s by simp
qed

lemma re_sub_token_pattern:
  "re_sub (token_pattern lit) (\<lambda>gs. new) s = replace_tokens lit new s"
proof (induction lit new s rule: replace_tokens.induct)
  case (1 lit new)
  have "map_option snd (match_here (token_pattern lit) []) = None"
    by (simp add: match_token)
  then show ?case by simp
next
  case (2 lit new c cs)
  show ?case
  proof (cases "token_at lit (c # cs)")
    case True
    let ?r = "dropWhile not_space (drop (length lit) (c # cs))"
    have "map_option snd (match_here (token_pattern lit) (c # cs)) = Some ?r"
      using True by (simp add: match_token)
    then obtain gs where m: "match_here (token_pattern lit) (c # cs) = Some (gs, ?r)"
      by (cases "match_here (token_pattern lit) (c # cs)") auto
    have "length ?r < Suc (length cs)" using token_rest_shorter [OF True] by simp
    then show ?thesis using m True 2(1) by simp
  next
    case False
    have "map_option snd (match_here (token_pattern lit) (c # cs)) = None"
      using False by (simp add: match_token)
    then show ?thesis using False 2(2) by simp
  qed
qed


section \<open>The pass on a map of names and plain versions\<close>


lemma special_not_name: "re_special c \<Longrightarrow> \<not> is_name_char c"
proof -
  have "list_all (\<lambda>c. \<not> is_name_char c) ''.^$*+?{}[]|()''"
    by (simp add: is_name_char_def)
  then have l: "\<And>c. c \<in> set ''.^$*+?{}[]|()'' \<Longrightarrow> \<not> is_name_char c"
    unfolding list_all_iff by blast
  have b: "\<not> is_name_char (CHR 0x5C)" by (simp add: is_name_char_def)
  assume "re_special c"
  then have "c \<in> set ''.^$*+?{}[]|()'' \<or> c = CHR 0x5C" unfolding re_special_def .
  then show ?thesis using l b by blast
qed

lemma space_not_name: "is_space c \<Longrightarrow> \<not> is_name_char c"
proof -
  have "list_all (\<lambda>c. \<not> is_name_char c) [CHR 0x09, CHR 0x0A, CHR 0x0B, CHR 0x0C, CHR 0x0D,
     CHR 0x1C, CHR 0x1D, CHR 0x1E, CHR 0x1F, CHR 0x20, CHR 0x85, CHR 0xA0]"
    by (simp add: is_name_char_def)
  then have l: "\<And>c. c \<in> set [CHR 0x09, CHR 0x0A, CHR 0x0B, CHR 0x0C, CHR 0x0D,
     CHR 0x1C, CHR 0x1D, CHR 0x1E, CHR 0x1F, CHR 0x20, CHR 0x85, CHR 0xA0] \<Longrightarrow> \<not> is_name_char c"
    unfolding list_all_iff by blast
  assume "is_space c"
  then show ?thesis unfolding is_space_def by (rule l)
qed

lemma other_not_name:
  "\<not> is_name_char (CHR 0x01)" "\<not> is_name_char (CHR 0x22)" "\<not> is_name_char (CHR ''='')"
  by (simp_all add: is_name_char_def)

lemma name_char_facts:
  assumes "is_name_char c"
  shows "\<not> re_special c" "not_space c" "c \<noteq> CHR 0x01" "c \<noteq> CHR 0x22" "c \<noteq> CHR ''=''"
  using assms special_not_name space_not_name other_not_name
  by (auto simp: not_space_def)

lemma assignment_chars:
  assumes "name_prefix pfx" "c \<in> set (assignment pfx)"
  shows "not_space c" "c \<noteq> CHR 0x01" "c \<noteq> CHR 0x22"
proof -
  from assms have "is_name_char c \<or> c \<in> set ''_VER=''"
    by (auto simp: name_prefix_def assignment_def list_all_iff)
  moreover have "list_all (\<lambda>c. is_name_char c \<or> c = CHR ''='') ''_VER=''"
    by (simp add: is_name_char_def)
  ultimately have "is_name_char c \<or> c = CHR ''=''"
    unfolding list_all_iff by blast
  moreover have "not_space (CHR ''='')" by (simp add: not_space_def is_space_def)
  ultimately show "not_space c" "c \<noteq> CHR 0x01" "c \<noteq> CHR 0x22"
    using name_char_facts by auto
qed

lemma assignment_not_Nil [simp]: "assignment pfx \<noteq> []"
  by (simp add: assignment_def)

lemma sub_pattern_name:
  "name_prefix pfx \<Longrightarrow> sub_pattern pfx = Some (token_pattern (assignment pfx))"
  using name_char_facts(1)
  by (auto simp: sub_pattern_def token_pattern_def assignment_def name_prefix_def
      list_all_iff list_ex_iff)

lemma sub_line_name:
  "name_prefix pfx \<Longrightarrow> CHR 0x5C \<notin> set version \<Longrightarrow>
   sub_line pfx version line
   = Some (replace_tokens (assignment pfx) (replacement version) line)"
  by (simp add: sub_line_def sub_pattern_name sub_template_def re_sub_token_pattern)

lemma substitute_passes:
  "valid_map packages \<Longrightarrow> substitute packages line = Some (passes packages line)"
  by (induction packages line rule: passes.induct) (auto simp: valid_map_def sub_line_name)


text \<open>A line without a token is left as it is.\<close>

lemma replace_tokens_none:
  "(\<And>k. \<not> token_at lit (drop k s)) \<Longrightarrow> replace_tokens lit new s = s"
proof (induction s)
  case Nil
  then show ?case by simp
next
  case (Cons c cs)
  have "\<not> token_at lit (c # cs)" using Cons.prems [of 0] by simp
  moreover have "replace_tokens lit new cs = cs"
  proof (rule Cons.IH)
    fix k show "\<not> token_at lit (drop k cs)" using Cons.prems [of "Suc k"] by simp
  qed
  ultimately show ?case by simp
qed

text \<open>The leftmost token: what stands before it is kept, the token reaches to the next
  white space, and the scan goes on behind it.\<close>

lemma token_atD:
  assumes "token_at lit s"
  shows "s = lit @ takeWhile not_space (drop (length lit) s)
             @ dropWhile not_space (drop (length lit) s)"
    and "takeWhile not_space (drop (length lit) s) \<noteq> []"
proof -
  from assms have p: "prefix lit s" by (simp add: token_at_def)
  then have "s = lit @ drop (length lit) s" by (metis append_eq_conv_conj prefixE)
  then show "s = lit @ takeWhile not_space (drop (length lit) s)
             @ dropWhile not_space (drop (length lit) s)" by simp
  from assms show "takeWhile not_space (drop (length lit) s) \<noteq> []"
    by (cases "drop (length lit) s") (auto simp: token_at_def)
qed

lemma replace_tokens_first:
  assumes "token_at lit (drop k s)"
  shows "\<exists>u t r. s = u @ lit @ t @ r \<and> length u \<le> k \<and> t \<noteq> [] \<and> list_all not_space t
           \<and> (r = [] \<or> is_space (hd r))
           \<and> replace_tokens lit new s = u @ new @ replace_tokens lit new r
           \<and> (\<forall>j<length u. \<not> token_at lit (drop j s))"
  using assms
proof (induction s arbitrary: k)
  case Nil
  then show ?case by simp
next
  case (Cons c cs)
  show ?case
  proof (cases "token_at lit (c # cs)")
    case True
    let ?t = "takeWhile not_space (drop (length lit) (c # cs))"
    let ?r = "dropWhile not_space (drop (length lit) (c # cs))"
    have "c # cs = [] @ lit @ ?t @ ?r" "?t \<noteq> []" using token_atD [OF True] by simp_all
    moreover have "list_all not_space ?t" by (auto simp: list_all_iff dest: set_takeWhileD)
    moreover have "?r = [] \<or> is_space (hd ?r)"
      using hd_dropWhile [of not_space] by (auto simp: not_space_def)
    moreover have "replace_tokens lit new (c # cs) = [] @ new @ replace_tokens lit new ?r"
      using True by simp
    ultimately show ?thesis by (intro exI [of _ "[]"] exI [of _ ?t] exI [of _ ?r]) simp
  next
    case False
    with Cons.prems obtain k' where k: "k = Suc k'" by (cases k) auto
    with Cons.prems have "token_at lit (drop k' cs)" by simp
    from Cons.IH [OF this] obtain u t r where u: "cs = u @ lit @ t @ r" "length u \<le> k'"
      "t \<noteq> []" "list_all not_space t" "r = [] \<or> is_space (hd r)"
      "replace_tokens lit new cs = u @ new @ replace_tokens lit new r"
      "\<forall>j<length u. \<not> token_at lit (drop j cs)" by blast
    have "\<forall>j<length (c # u). \<not> token_at lit (drop j (c # cs))"
    proof (intro allI impI)
      fix j assume "j < length (c # u)"
      then show "\<not> token_at lit (drop j (c # cs))" using False u(7) by (cases j) auto
    qed
    moreover have "replace_tokens lit new (c # cs) = (c # u) @ new @ replace_tokens lit new r"
      using False u(6) by simp
    moreover have "c # cs = (c # u) @ lit @ t @ r" using u(1) by simp
    ultimately show ?thesis using u(2-5) k
      by (intro exI [of _ "c # u"] exI [of _ t] exI [of _ r]) simp
  qed
qed


section \<open>White space separates the tokens\<close>


text \<open>A text without white space does not reach across a white space character.\<close>

lemma token_at_space:
  assumes "list_all not_space lit" "is_space c"
  shows "token_at lit (a @ c # b) \<longleftrightarrow> token_at lit a"
proof (cases "length lit \<le> length a")
  case True
  then have p: "prefix lit (a @ c # b) \<longleftrightarrow> prefix lit a"
    by (metis prefix_length_prefix prefix_prefix prefixI append.assoc prefix_order.dual_order.refl)
  have d: "drop (length lit) (a @ c # b) = drop (length lit) a @ c # b" using True by simp
  show ?thesis
    using assms(2) unfolding token_at_def p d
    by (cases "drop (length lit) a") (auto simp: not_space_def)
next
  case False
  then have n: "\<not> prefix lit a" by (auto dest: prefix_length_le)
  have "\<not> prefix lit (a @ c # b)"
  proof
    assume "prefix lit (a @ c # b)"
    then obtain z where z: "a @ c # b = lit @ z" by (auto elim: prefixE)
    from False have "length a < length lit" by simp
    then have "lit ! length a = c" using z
      by (metis nth_append nth_append_length)
    then have "c \<in> set lit" using \<open>length a < length lit\<close> by (metis nth_mem)
    with assms show False by (auto simp: list_all_iff not_space_def)
  qed
  with n show ?thesis by (simp add: token_at_def)
qed

lemma token_at_space_head:
  assumes "list_all not_space lit" "lit \<noteq> []" "is_space c"
  shows "\<not> token_at lit (c # b)"
  using token_at_space [OF assms(1,3), of "[]" b] by simp

lemma dropWhile_space:
  "is_space c \<Longrightarrow> dropWhile not_space (x @ c # b) = dropWhile not_space x @ c # b"
  by (induction x) (auto simp: not_space_def)

lemma replace_tokens_space:
  "list_all not_space lit \<Longrightarrow> lit \<noteq> [] \<Longrightarrow> is_space c \<Longrightarrow>
   replace_tokens lit new (a @ c # b)
   = replace_tokens lit new a @ c # replace_tokens lit new b"
proof (induction lit new a rule: replace_tokens.induct)
  case (1 lit new)
  then show ?case using token_at_space_head [of lit c b] by simp
next
  case (2 lit new x xs)
  have t: "token_at lit ((x # xs) @ c # b) \<longleftrightarrow> token_at lit (x # xs)"
    using 2(3,5) by (rule token_at_space)
  show ?case
  proof (cases "token_at lit (x # xs)")
    case True
    then have "length lit \<le> length (x # xs)" by (auto simp: token_at_def dest: prefix_length_le)
    then have "drop (length lit) ((x # xs) @ c # b) = drop (length lit) (x # xs) @ c # b"
      by (simp only: drop_append) simp
    then have d: "dropWhile not_space (drop (length lit) ((x # xs) @ c # b))
               = dropWhile not_space (drop (length lit) (x # xs)) @ c # b"
      using dropWhile_space [OF 2(5)] by simp
    have "replace_tokens lit new ((x # xs) @ c # b)
          = new @ replace_tokens lit new (dropWhile not_space (drop (length lit) (x # xs)) @ c # b)"
      using True t d replace_tokens.simps(2) [of lit new x "xs @ c # b"] by simp
    also have "\<dots> = new @ replace_tokens lit new (dropWhile not_space (drop (length lit) (x # xs)))
                    @ c # replace_tokens lit new b"
      using 2(1) [OF True 2(3,4,5)] by simp
    finally show ?thesis using True by simp
  next
    case False
    then have "replace_tokens lit new ((x # xs) @ c # b)
               = x # replace_tokens lit new (xs @ c # b)"
      using t replace_tokens.simps(2) [of lit new x "xs @ c # b"] by simp
    then show ?thesis using False 2(2) [OF False 2(3,4,5)] by simp
  qed
qed


text \<open>A word, a string without white space, holds at most one token: the token reaches
  to the end of the word.\<close>

lemma replace_tokens_word:
  assumes "list_all not_space w" "token_at lit (drop k w)"
  shows "\<exists>u t. w = u @ lit @ t \<and> length u \<le> k \<and> t \<noteq> []
           \<and> replace_tokens lit new w = u @ new
           \<and> (\<forall>j<length u. \<not> token_at lit (drop j w))"
proof -
  from replace_tokens_first [OF assms(2), of new]
  obtain u t r where u: "w = u @ lit @ t @ r" "length u \<le> k" "t \<noteq> []"
      "r = [] \<or> is_space (hd r)"
      "replace_tokens lit new w = u @ new @ replace_tokens lit new r"
      "\<forall>j<length u. \<not> token_at lit (drop j w)" by blast
  have "r = []"
  proof (rule ccontr)
    assume "r \<noteq> []"
    with u(4) have "is_space (hd r)" "hd r \<in> set w" using u(1) by auto
    with assms(1) show False by (auto simp: list_all_iff not_space_def)
  qed
  with u show ?thesis by (intro exI [of _ u] exI [of _ t]) simp
qed


section \<open>What the pass writes, and where\<close>


lemmas sub_eval = sub_line_def sub_pattern_def sub_template_def replacement_def re_special_def
  not_space_def is_space_def

text \<open>
  Claim C1. The specification expects \<^verbatim>\<open>SSL_VER="1.0.2o"\<close> and the line feed; the code
  writes the character with code 1 where the text \<^verbatim>\<open>SSL_VER=\<close> was.
\<close>

theorem substitute_ssl_line:
  \<open>substitute [(''SSL'', ''1.0.2o'')] (''SSL_VER="1.0.2n"'' @ [CHR 0x0A])
     = Some ([CHR 0x01] @ ''"1.0.2o"'' @ [CHR 0x0A])
   \<and> substitute [(''SSL'', ''1.0.2o'')] (''SSL_VER="1.0.2n"'' @ [CHR 0x0A])
     \<noteq> Some (''SSL_VER="1.0.2o"'' @ [CHR 0x0A])\<close>
  by (simp add: sub_eval)




section \<open>The frame of the pass\<close>


lemma frame_refl: "frame pfxs s s"
  by (induction s) (auto intro: frame.intros)

lemma frame_append:
  assumes "frame pfxs a a'" "frame pfxs b b'" "b = [] \<or> is_space (hd b)"
  shows "frame pfxs (a @ b) (a' @ b')"
  using assms(1)
proof (induction rule: frame.induct)
  case frame_Nil
  then show ?case using assms(2) by simp
next
  case (frame_keep xs ys c)
  then show ?case by (simp add: frame.frame_keep)
next
  case (frame_token pfx tok xs ys new)
  have "xs @ b = [] \<or> is_space (hd (xs @ b))"
    using frame_token(3) assms(3) by (cases xs) auto
  from frame.frame_token [OF frame_token(1,2) this frame_token(5)]
  show ?case by simp
qed

lemma has_token_iff: "has_token pfx s \<longleftrightarrow> (\<exists>k. token_at (assignment pfx) (drop k s))"
proof (induction s)
  case Nil
  then show ?case by (simp add: token_at_def)
next
  case (Cons c cs)
  show ?case
  proof
    assume "has_token pfx (c # cs)"
    then consider "token_at (assignment pfx) (c # cs)" | "has_token pfx cs" by auto
    then show "\<exists>k. token_at (assignment pfx) (drop k (c # cs))"
    proof cases
      case 1
      then have "token_at (assignment pfx) (drop 0 (c # cs))" by simp
      then show ?thesis by blast
    next
      case 2
      with Cons.IH obtain k where "token_at (assignment pfx) (drop k cs)" by blast
      then have "token_at (assignment pfx) (drop (Suc k) (c # cs))" by simp
      then show ?thesis by blast
    qed
  next
    assume "\<exists>k. token_at (assignment pfx) (drop k (c # cs))"
    then obtain k where k: "token_at (assignment pfx) (drop k (c # cs))" by blast
    show "has_token pfx (c # cs)"
    proof (cases k)
      case 0
      with k show ?thesis by simp
    next
      case (Suc k')
      with k have "token_at (assignment pfx) (drop k' cs)" by simp
      with Cons.IH show ?thesis by auto
    qed
  qed
qed

lemma is_token_has_token: "is_token pfx tok \<Longrightarrow> has_token pfx (tok @ xs)"
proof -
  assume t: "is_token pfx tok"
  let ?lit = "assignment pfx"
  from t obtain r where tok: "tok = ?lit @ r" by (auto simp: is_token_def elim: prefixE)
  with t have "r \<noteq> []" "list_all not_space r" by (auto simp: is_token_def)
  then have "token_at ?lit (drop 0 (tok @ xs))"
    unfolding tok by (cases r) (auto simp: token_at_def)
  then show ?thesis unfolding has_token_iff by blast
qed

lemma has_token_Cons: "has_token pfx xs \<Longrightarrow> has_token pfx (c # xs)"
  by simp

lemma frame_no_token:
  "frame pfxs line out \<Longrightarrow> (\<And>pfx. pfx \<in> set pfxs \<Longrightarrow> \<not> has_token pfx line) \<Longrightarrow> out = line"
proof (induction rule: frame.induct)
  case frame_Nil
  then show ?case by simp
next
  case (frame_keep xs ys c)
  then show ?case using has_token_Cons by blast
next
  case (frame_token pfx tok xs ys new)
  then show ?case using is_token_has_token by blast
qed

lemma prefix_before_foreign:
  assumes "prefix lit (a @ x # b)" "x \<notin> set lit"
  shows "prefix lit a"
proof (rule ccontr)
  assume n: "\<not> prefix lit a"
  from assms(1) obtain z where z: "a @ x # b = lit @ z" by (auto elim: prefixE)
  have "length a < length lit"
  proof (rule ccontr)
    assume "\<not> length a < length lit"
    then have "length lit \<le> length a" by simp
    with z have "prefix lit a" by (metis prefixI prefix_length_prefix prefix_order.refl append.assoc prefix_prefix)
    with n show False by blast
  qed
  then have "lit ! length a = x" using z by (metis nth_append nth_append_length)
  then have "x \<in> set lit" using \<open>length a < length lit\<close> by (metis nth_mem)
  with assms(2) show False by blast
qed

lemma replace_tokens_before_mark:
  assumes "x \<notin> set lit" "lit \<noteq> []"
  shows "(\<exists>z'. replace_tokens lit new (u @ x # z) = u @ x # z')
         \<or> (\<exists>u' t z'. u = u' @ lit @ t \<and> replace_tokens lit new (u @ x # z) = u' @ new @ z')"
proof (induction u)
  case Nil
  have "\<not> token_at lit (x # z)" using assms by (cases lit) auto
  then show ?case by simp
next
  case (Cons c cs)
  show ?case
  proof (cases "token_at lit (c # cs @ x # z)")
    case True
    then have "prefix lit ((c # cs) @ x # z)" by (simp add: token_at_def)
    from prefix_before_foreign [OF this assms(1)] obtain t where "c # cs = lit @ t"
      by (auto elim: prefixE)
    then have "c # cs = [] @ lit @ t" by simp
    moreover have "replace_tokens lit new ((c # cs) @ x # z)
      = [] @ new @ replace_tokens lit new (dropWhile not_space (drop (length lit) (c # cs @ x # z)))"
      using True by simp
    ultimately show ?thesis by blast
  next
    case False
    then have r: "replace_tokens lit new ((c # cs) @ x # z)
                  = c # replace_tokens lit new (cs @ x # z)" by simp
    from Cons.IH show ?thesis
    proof (elim disjE exE conjE)
      fix z' assume "replace_tokens lit new (cs @ x # z) = cs @ x # z'"
      with r show ?thesis by simp
    next
      fix u' t z' assume "cs = u' @ lit @ t"
        "replace_tokens lit new (cs @ x # z) = u' @ new @ z'"
      with r have "c # cs = (c # u') @ lit @ t"
        "replace_tokens lit new ((c # cs) @ x # z) = (c # u') @ new @ z'" by simp_all
      then show ?thesis by blast
    qed
  qed
qed



lemma replacement_Cons: "replacement v = CHR 0x01 # CHR 0x22 # v @ [CHR 0x22]"
  by (simp add: replacement_def)

lemma is_token_intro:
  "t \<noteq> [] \<Longrightarrow> list_all not_space t \<Longrightarrow> is_token pfx (assignment pfx @ t)"
  by (simp add: is_token_def)

lemma word_inv_step:
  assumes "word_inv P w cur" "list_all not_space w" "name_prefix q"
  shows "word_inv (insert q P) w (replace_tokens (assignment q) (replacement v) cur)"
proof -
  let ?lit = "assignment q" and ?new = "replacement v"
  have mark: "CHR 0x01 \<notin> set ?lit" using assignment_chars(2) [OF assms(3)] by blast
  from assms(1) consider "cur = w"
    | j z pfx where "j < length w" "cur = take j w @ CHR 0x01 # z" "pfx \<in> P"
        "is_token pfx (drop j w)"
    unfolding word_inv_def by blast
  then show ?thesis
  proof cases
    case 1
    show ?thesis
    proof (cases "\<exists>k. token_at ?lit (drop k w)")
      case False
      then have "replace_tokens ?lit ?new w = w" by (intro replace_tokens_none) blast
      with 1 show ?thesis by (simp add: word_inv_def)
    next
      case True
      then obtain k where "token_at ?lit (drop k w)" by blast
      from replace_tokens_word [OF assms(2) this, of ?new]
      obtain u t where u: "w = u @ ?lit @ t" "t \<noteq> []" "replace_tokens ?lit ?new w = u @ ?new"
        by blast
      have "list_all not_space t" using assms(2) u(1) by (metis list_all_append)
      then have "is_token q (drop (length u) w)"
        using u(1,2) by (metis append_eq_conv_conj is_token_intro)
      moreover have "length u < length w" using u(1) by (metis assignment_not_Nil length_append
            less_add_same_cancel1 length_greater_0_conv add_gr_0)
      moreover have "take (length u) w = u" using u(1) by (metis append_eq_conv_conj)
      ultimately show ?thesis
        unfolding word_inv_def using 1 u(3) replacement_Cons [of v]
        by (intro disjI2 exI [of _ "length u"] exI [of _ "CHR 0x22 # v @ [CHR 0x22]"]
            exI [of _ q]) simp
    qed
  next
    case 2
    from replace_tokens_before_mark [OF mark assignment_not_Nil, of ?new "take j w" z]
    show ?thesis
    proof (elim disjE exE conjE)
      fix z' assume "replace_tokens ?lit ?new (take j w @ CHR 0x01 # z) = take j w @ CHR 0x01 # z'"
      with 2 show ?thesis unfolding word_inv_def by auto
    next
      fix u' t z' assume u: "take j w = u' @ ?lit @ t"
        and r: "replace_tokens ?lit ?new (take j w @ CHR 0x01 # z) = u' @ ?new @ z'"
      have w: "w = u' @ ?lit @ (t @ drop j w)"
        using u by (metis append_take_drop_id append.assoc)
      have "drop j w \<noteq> []" using 2(1) by simp
      moreover have "list_all not_space (t @ drop j w)"
        using assms(2) w by (metis list_all_append)
      ultimately have "is_token q (drop (length u') w)"
        using w by (metis append_eq_conv_conj is_token_intro append_is_Nil_conv)
      moreover have "length u' < length w" using w by (metis assignment_not_Nil length_append
            less_add_same_cancel1 length_greater_0_conv add_gr_0)
      moreover have "take (length u') w = u'" using w by (metis append_eq_conv_conj)
      ultimately show ?thesis
        unfolding word_inv_def using 2(2) r replacement_Cons [of v]
        by (intro disjI2 exI [of _ "length u'"] exI [of _ "CHR 0x22 # v @ [CHR 0x22] @ z'"]
            exI [of _ q]) simp
    qed
  qed
qed

lemma word_inv_passes:
  "word_inv P w cur \<Longrightarrow> list_all not_space w \<Longrightarrow> valid_map m \<Longrightarrow>
   word_inv (P \<union> fst ` set m) w (passes m cur)"
proof (induction m cur arbitrary: P rule: passes.induct)
  case (1 line)
  then show ?case by simp
next
  case (2 pfx version packages line)
  from 2(4) have v: "name_prefix pfx" "valid_map packages" by (auto simp: valid_map_def)
  have "word_inv (insert pfx P) w (replace_tokens (assignment pfx) (replacement version) line)"
    by (rule word_inv_step [OF 2(2,3) v(1)])
  from 2(1) [OF this 2(3) v(2)] show ?case by simp
qed

lemma frame_keep_prefix: "frame pfxs xs ys \<Longrightarrow> frame pfxs (u @ xs) (u @ ys)"
  by (induction u) (auto intro: frame.intros)

lemma word_inv_frame:
  assumes "word_inv (set pfxs) w cur"
  shows "frame pfxs w cur"
proof -
  from assms consider "cur = w"
    | j z pfx where "j < length w" "cur = take j w @ CHR 0x01 # z" "pfx \<in> set pfxs"
        "is_token pfx (drop j w)"
    unfolding word_inv_def by blast
  then show ?thesis
  proof cases
    case 1
    then show ?thesis by (simp add: frame_refl)
  next
    case 2
    have "frame pfxs (drop j w @ []) ((CHR 0x01 # z) @ [])"
      by (rule frame_token [OF 2(3,4)]) (simp_all add: frame_Nil)
    then have t: "frame pfxs (drop j w) (CHR 0x01 # z)" by simp
    have "frame pfxs (take j w @ drop j w) (take j w @ CHR 0x01 # z)"
      by (rule frame_keep_prefix [OF t])
    then show ?thesis using 2(2) by simp
  qed
qed

text \<open>The passes of a map rewrite the two sides of a white space character on their own.\<close>

lemma passes_space:
  "valid_map m \<Longrightarrow> is_space c \<Longrightarrow> passes m (a @ c # b) = passes m a @ c # passes m b"
proof (induction m a arbitrary: b rule: passes.induct)
  case (1 line)
  then show ?case by simp
next
  case (2 pfx version packages line)
  from 2(2) have v: "name_prefix pfx" "valid_map packages" by (auto simp: valid_map_def)
  have lit: "list_all not_space (assignment pfx)"
    using assignment_chars(1) [OF v(1)] by (auto simp: list_all_iff)
  show ?case
    using replace_tokens_space [OF lit assignment_not_Nil 2(3)] 2(1) [OF v(2) 2(3)] by simp
qed

lemma passes_frame:
  assumes "valid_map m"
  shows "frame (map fst m) line (passes m line)"
proof (induction "length line" arbitrary: line rule: less_induct)
  case less
  let ?w = "takeWhile not_space line" and ?r = "dropWhile not_space line"
  have w: "list_all not_space ?w" by (auto simp: list_all_iff dest: set_takeWhileD)
  have "word_inv ({} \<union> fst ` set m) ?w (passes m ?w)"
    by (rule word_inv_passes [OF _ w assms]) (simp add: word_inv_def)
  then have fw: "frame (map fst m) ?w (passes m ?w)" by (intro word_inv_frame) simp
  show ?case
  proof (cases ?r)
    case Nil
    then have "line = ?w" by (metis takeWhile_dropWhile_id append_Nil2)
    with fw show ?thesis by simp
  next
    case (Cons c r)
    then have c: "is_space c" using hd_dropWhile [of not_space line] by (auto simp: not_space_def)
    have line: "line = ?w @ c # r" using Cons by (metis takeWhile_dropWhile_id)
    then have "length r < length line" by (metis length_append length_Cons less_add_Suc2 add_Suc_right less_SucI)
    then have "frame (map fst m) r (passes m r)" by (rule less)
    then have "frame (map fst m) (c # r) (c # passes m r)" by (rule frame_keep)
    with fw have "frame (map fst m) (?w @ c # r) (passes m ?w @ c # passes m r)"
      by (rule frame_append) (simp add: c)
    then show ?thesis using passes_space [OF assms c, of ?w r] line by simp
  qed
qed


section \<open>The frame of the rewritten file\<close>

lemma substitute_frame_line:
  assumes "valid_map packages"
  shows "substitute packages line = Some (passes packages line)"
    and "frame (map fst packages) line (passes packages line)"
    and "(\<forall>pfx\<in>set (map fst packages). \<not> has_token pfx line) \<longrightarrow> passes packages line = line"
proof -
  show "substitute packages line = Some (passes packages line)"
    by (rule substitute_passes [OF assms])
  show f: "frame (map fst packages) line (passes packages line)"
    by (rule passes_frame [OF assms])
  show "(\<forall>pfx\<in>set (map fst packages). \<not> has_token pfx line) \<longrightarrow> passes packages line = line"
    using frame_no_token [OF f] by blast
qed

lemma write_text_append:
  "write_text linesep (a @ b) = write_text linesep a @ write_text linesep b"
  by (simp add: write_text_def)

lemma write_text_posix: "write_text [CHR 0x0A] s = s"
  by (induction s) (simp_all add: write_text_def)

lemma concat_lines_from: "concat (lines_from cur s) = cur @ s"
  by (induction s arbitrary: cur) simp_all

lemma concat_read_lines: "concat (read_lines content) = universal_newlines content"
  by (simp add: read_lines_def concat_lines_from)

lemma universal_newlines_id: "CHR 0x0D \<notin> set s \<Longrightarrow> universal_newlines s = s"
  by (induction s rule: universal_newlines.induct) auto

lemma rewrite_lines_passes:
  "valid_map packages \<Longrightarrow>
   rewrite_lines linesep packages ls
   = Some (write_text linesep (concat (map (passes packages) ls)))"
proof (induction ls)
  case Nil
  then show ?case by (simp add: write_text_def)
next
  case (Cons l ls)
  then show ?case by (simp add: substitute_passes write_text_append)
qed

text \<open>
  Claim C8, as stated, fails at the line terminator: the file is read in text mode, so a
  line that ends in a carriage return and a line feed reaches the pass with a line feed
  only, and is written with the line separator of the system.
\<close>

theorem rewrite_file_terminator_counterexample:
  "\<not> has_token ''CURL'' (''FOO=bar'' @ [CHR 0x0D, CHR 0x0A])
   \<and> \<not> has_token ''SSL'' (''FOO=bar'' @ [CHR 0x0D, CHR 0x0A])
   \<and> rewrite_file [CHR 0x0A] [(''CURL'', ''8.4.0''), (''SSL'', ''1.0.2o'')]
        (''FOO=bar'' @ [CHR 0x0D, CHR 0x0A]) = Some (''FOO=bar'' @ [CHR 0x0A])
   \<and> ''FOO=bar'' @ [CHR 0x0A] \<noteq> ''FOO=bar'' @ [CHR 0x0D, CHR 0x0A]"
  by (simp add: token_at_def assignment_def rewrite_file_def read_lines_def write_text_def
      sub_eval)

text \<open>
  Claim C8, amended. For a map of names and plain versions, the new file is the text of
  the lines written, with every line feed as the line separator of the system. Each line
  written is the line read with some assignment tokens of the map's prefixes replaced:
  every character outside these tokens, white space and line feed included, is in its
  place, and a line without a token of any prefix of the map is written as it was read.
  The lines read are the text of the file with each carriage return and line feed, and
  each carriage return alone, turned into a line feed; they are the text itself when it
  holds no carriage return, and where the line separator is the line feed the new file
  is the text of the lines written.
\<close>

theorem rewrite_file_frame:
  assumes "valid_map packages"
  shows "\<exists>outs. rewrite_file linesep packages content = Some (write_text linesep (concat outs))
           \<and> list_all2 (\<lambda>line out. frame (map fst packages) line out
                 \<and> ((\<forall>pfx\<in>set (map fst packages). \<not> has_token pfx line) \<longrightarrow> out = line))
               (read_lines content) outs
           \<and> concat (read_lines content) = universal_newlines content
           \<and> (CHR 0x0D \<notin> set content \<longrightarrow> universal_newlines content = content)
           \<and> write_text [CHR 0x0A] (concat outs) = concat outs"
proof -
  let ?outs = "map (passes packages) (read_lines content)"
  have "rewrite_file linesep packages content = Some (write_text linesep (concat ?outs))"
    unfolding rewrite_file_def by (rule rewrite_lines_passes [OF assms])
  moreover have "list_all2 (\<lambda>line out. frame (map fst packages) line out
                 \<and> ((\<forall>pfx\<in>set (map fst packages). \<not> has_token pfx line) \<longrightarrow> out = line))
               (read_lines content) ?outs"
    unfolding list_all2_map2
    by (rule list_all2_refl) (use substitute_frame_line(2,3) [OF assms] in blast)
  ultimately show ?thesis
    using concat_read_lines universal_newlines_id write_text_posix by blast
qed

theorem rewrite_file_frame_witness:
  \<open>rewrite_file [CHR 0x0A] [(''CURL'', ''8.4.0''), (''SSL'', ''1.0.2o'')]
     (''FOO=bar'' @ [CHR 0x0A] @ ''  ENV SSL_VER="1.0.2n" ZLIB_VER=1'' @ [CHR 0x0A])
   = Some (''FOO=bar'' @ [CHR 0x0A] @ ''  ENV '' @ replacement ''1.0.2o'' @ '' ZLIB_VER=1''
           @ [CHR 0x0A])\<close>
proof -
  have v: "valid_map [(''CURL'', ''8.4.0''), (''SSL'', ''1.0.2o'')]"
    by (simp add: valid_map_def name_prefix_def is_name_char_def)
  have e: \<open>rewrite_file [CHR 0x0A] [(''CURL'', ''8.4.0''), (''SSL'', ''1.0.2o'')]
     (''FOO=bar'' @ [CHR 0x0A] @ ''  ENV SSL_VER="1.0.2n" ZLIB_VER=1'' @ [CHR 0x0A])
   = Some (''FOO=bar'' @ [CHR 0x0A] @ ''  ENV '' @ replacement ''1.0.2o'' @ '' ZLIB_VER=1''
           @ [CHR 0x0A])\<close>
    by (simp add: rewrite_file_def read_lines_def write_text_def sub_eval)
  from rewrite_file_frame [OF v, of "[CHR 0x0A]"
      \<open>''FOO=bar'' @ [CHR 0x0A] @ ''  ENV SSL_VER="1.0.2n" ZLIB_VER=1'' @ [CHR 0x0A]\<close>] e
  show ?thesis by (simp only:)
qed

section \<open>Tokens after a pass\<close>


lemma token_at_fits:
  assumes "token_at lit (a @ y)" "length lit \<le> length a" "z \<noteq> []" "not_space (hd z)"
  shows "token_at lit (a @ z)"
proof -
  from assms(1) have "prefix lit (a @ y)" by (simp add: token_at_def)
  moreover have "prefix a (a @ y)" by simp
  ultimately have p: "prefix lit a" using assms(2) by (rule prefix_length_prefix)
  then have p': "prefix lit (a @ z)" by simp
  have d: "drop (length lit) (a @ y) = drop (length lit) a @ y"
    "drop (length lit) (a @ z) = drop (length lit) a @ z" using assms(2) by simp_all
  obtain e es where z: "z = e # es" "not_space e" using assms(3,4) by (cases z) auto
  show ?thesis
  proof (cases "drop (length lit) a")
    case Nil
    then have "drop (length lit) (a @ z) = e # es" using d(2) z(1) by simp
    then show ?thesis using p' z(2) by (simp add: token_at_def)
  next
    case (Cons f fs)
    then have "drop (length lit) (a @ y) = f # fs @ y" "drop (length lit) (a @ z) = f # fs @ z"
      using d by simp_all
    then show ?thesis using p' assms(1) by (simp add: token_at_def)
  qed
qed

lemma token_at_head_kept:
  assumes "token_at lit (c # replace_tokens lit' new cs)"
    and "new \<noteq> []" "hd new \<notin> set lit" "lit' \<noteq> []" "list_all not_space lit'"
  shows "token_at lit (c # cs)"
proof (cases "\<exists>k. token_at lit' (drop k cs)")
  case False
  then have "replace_tokens lit' new cs = cs" by (intro replace_tokens_none) blast
  with assms(1) show ?thesis by simp
next
  case True
  then obtain k where "token_at lit' (drop k cs)" by blast
  from replace_tokens_first [OF this, of new]
  obtain u t r where u: "cs = u @ lit' @ t @ r"
    "replace_tokens lit' new cs = u @ new @ replace_tokens lit' new r" by blast
  obtain x new' where new: "new = x # new'" using assms(2) by (cases new) auto
  have x: "x \<notin> set lit" using assms(3) unfolding new by simp
  let ?y = "new' @ replace_tokens lit' new r"
  have "new @ replace_tokens lit' new r = x # ?y" by (subst new) simp
  then have "c # replace_tokens lit' new cs = (c # u) @ x # ?y" using u(2) by simp
  with assms(1) have t: "token_at lit ((c # u) @ x # ?y)" by (simp only:)
  then have "prefix lit ((c # u) @ x # ?y)" unfolding token_at_def by (rule conjunct1)
  then have "prefix lit (c # u)" using x by (rule prefix_before_foreign)
  then have len: "length lit \<le> length (c # u)" by (rule prefix_length_le)
  obtain e es where e: "lit' = e # es" "not_space e" using assms(4,5) by (cases lit') auto
  have "token_at lit ((c # u) @ (lit' @ t @ r))"
    by (rule token_at_fits [OF t len]) (simp_all add: e)
  then show ?thesis unfolding u(1) by simp
qed


lemma replacement_facts:
  "replacement v \<noteq> []" "hd (replacement v) = CHR 0x01" "last (replacement v) = CHR 0x22"
  "CHR ''='' \<notin> set v \<Longrightarrow> CHR ''='' \<notin> set (replacement v)"
  by (simp_all add: replacement_def)

lemma last_assignment: "last (assignment pfx) = CHR ''=''"
  by (simp add: assignment_def)

lemma assignment_not_space: "name_prefix pfx \<Longrightarrow> list_all not_space (assignment pfx)"
  using assignment_chars(1) by (auto simp: list_all_iff)

text \<open>
  Claim C10. The pass is not idempotent on this map, whose versions hold no white space:
  the first run writes the character of code 1 where \<^verbatim>\<open>ZLIB_VER=\<close> stood, so the second
  run finds no token of \<^verbatim>\<open>ZLIB\<close> to rewrite, and the token of \<^verbatim>\<open>CURL\<close> that the first
  run wrote inside the version is replaced for good.
\<close>

theorem substitute_twice:
  "list_all not_space ''8.4.0'' \<and> list_all not_space ''CURL_VER=1''
   \<and> substitute [(''CURL'', ''8.4.0''), (''ZLIB'', ''CURL_VER=1'')] ''ZLIB_VER=1.3''
       = Some (replacement ''CURL_VER=1'')
   \<and> substitute [(''CURL'', ''8.4.0''), (''ZLIB'', ''CURL_VER=1'')] (replacement ''CURL_VER=1'')
       = Some ([CHR 0x01, CHR 0x22] @ replacement ''8.4.0'')
   \<and> [CHR 0x01, CHR 0x22] @ replacement ''8.4.0'' \<noteq> replacement ''CURL_VER=1''"
  by (simp add: sub_eval)

section \<open>The order of the passes\<close>


text \<open>Two assignment texts overlap only when one prefix ends with the other.\<close>

lemma overlap:
  assumes "prefix (lp @ [e]) (a @ lm @ e # t)" "e \<notin> set lp" "e \<notin> set lm"
  shows "length lp < length a \<or> lp = a @ lm"
proof -
  from assms(1) obtain rest where s: "a @ lm @ e # t = lp @ e # rest"
    by (auto elim: prefixE)
  have 1: "takeWhile (\<lambda>x. x \<noteq> e) (lp @ e # rest) = lp"
    using assms(2) by (auto simp: takeWhile_tail)
  show ?thesis
  proof (cases "e \<in> set a")
    case True
    then have "takeWhile (\<lambda>x. x \<noteq> e) (a @ lm @ e # t) = takeWhile (\<lambda>x. x \<noteq> e) a"
      by (simp add: takeWhile_append1)
    with 1 s have lp: "lp = takeWhile (\<lambda>x. x \<noteq> e) a" by simp
    have "takeWhile (\<lambda>x. x \<noteq> e) a \<noteq> a" using True by (simp add: takeWhile_eq_all_conv)
    moreover have "prefix (takeWhile (\<lambda>x. x \<noteq> e) a) a" by (rule takeWhile_is_prefix)
    ultimately have "length (takeWhile (\<lambda>x. x \<noteq> e) a) < length a"
      by (metis prefix_length_less strict_prefixI)
    with lp show ?thesis by simp
  next
    case False
    then have "\<forall>x\<in>set (a @ lm). x \<noteq> e" using assms(3) by auto
    then have "takeWhile (\<lambda>x. x \<noteq> e) ((a @ lm) @ e # t) = a @ lm"
      by (subst takeWhile_tail) (simp_all add: takeWhile_eq_all_conv del: set_append)
    with 1 s show ?thesis by simp
  qed
qed

lemma eq_not_in_name: "name_prefix pfx \<Longrightarrow> CHR ''='' \<notin> set (pfx @ ''_VER'')"
  using name_char_facts(5) by (auto simp: name_prefix_def list_all_iff)

lemma assignment_overlap:
  assumes "name_prefix p" "name_prefix q" "prefix (assignment p) (a @ assignment q @ t)"
    and "\<not> suffix q p"
  shows "length (assignment p) \<le> length a"
proof -
  have "prefix ((p @ ''_VER'') @ [CHR ''='']) (a @ (q @ ''_VER'') @ CHR ''='' # t)"
    using assms(3) by (simp add: assignment_def)
  from overlap [OF this eq_not_in_name [OF assms(1)] eq_not_in_name [OF assms(2)]]
  have "length (p @ ''_VER'') < length a \<or> p @ ''_VER'' = a @ q @ ''_VER''" by simp
  moreover have "p @ ''_VER'' \<noteq> a @ q @ ''_VER''"
  proof
    assume "p @ ''_VER'' = a @ q @ ''_VER''"
    then have "p = a @ q" by simp
    with assms(4) show False by (simp add: suffix_def)
  qed
  ultimately show ?thesis by (simp add: assignment_def)
qed

lemma replace_tokens_at_word:
  assumes "list_all not_space x" "token_at lit x"
  shows "replace_tokens lit new x = new"
proof -
  obtain c cs where x: "x = c # cs" using assms(2) by (cases x) auto
  have "list_all not_space (drop (length lit) x)"
    using assms(1) by (auto simp: list_all_iff dest: in_set_dropD)
  then have "dropWhile not_space (drop (length lit) (c # cs)) = []"
    unfolding x by (simp add: list_all_iff)
  then have "replace_tokens lit new (dropWhile not_space (drop (length lit) (c # cs))) = []"
    by (simp only: replace_tokens.simps)
  then show ?thesis using assms(2) unfolding x by (simp only: replace_tokens.simps if_True) simp
qed

lemma replace_tokens_stays_word:
  assumes "list_all not_space x" "list_all not_space new"
  shows "list_all not_space (replace_tokens lit new x)"
proof (cases "\<exists>k. token_at lit (drop k x)")
  case False
  then have "replace_tokens lit new x = x" by (intro replace_tokens_none) blast
  with assms(1) show ?thesis by simp
next
  case True
  then obtain k where "token_at lit (drop k x)" by blast
  from replace_tokens_word [OF assms(1) this, of new]
  obtain u t where "x = u @ lit @ t" "replace_tokens lit new x = u @ new" by blast
  with assms show ?thesis by (metis list_all_append)
qed

lemma no_token_without_last:
  assumes "lit \<noteq> []" "last lit \<notin> set s"
  shows "replace_tokens lit new s = s"
proof (rule replace_tokens_none)
  fix k
  show "\<not> token_at lit (drop k s)"
  proof
    assume "token_at lit (drop k s)"
    then have "prefix lit (drop k s)" by (simp add: token_at_def)
    then have "set lit \<subseteq> set (drop k s)" by (rule set_mono_prefix)
    moreover have "set (drop k s) \<subseteq> set s" by (rule set_drop_subset)
    moreover have "last lit \<in> set lit" using assms(1) by simp
    ultimately show False using assms(2) by blast
  qed
qed



lemma replacement_not_space: "list_all not_space v \<Longrightarrow> list_all not_space (replacement v)"
  by (simp add: replacement_def not_space_def is_space_def)

text \<open>A word that starts with a token of \<open>p\<close> and not with one of \<open>q\<close>: either order of
  the two passes leaves the new text of \<open>p\<close>.\<close>

lemma word_head_token:
  assumes "name_prefix p" "name_prefix q" "\<not> suffix q p"
    and "CHR ''='' \<notin> set vp" "list_all not_space vp" "list_all not_space vq"
    and "list_all not_space (c # cs)"
    and "token_at (assignment p) (c # cs)" "\<not> token_at (assignment q) (c # cs)"
  shows "replace_tokens (assignment q) (replacement vq)
           (replace_tokens (assignment p) (replacement vp) (c # cs)) = replacement vp"
    and "replace_tokens (assignment p) (replacement vp)
           (replace_tokens (assignment q) (replacement vq) (c # cs)) = replacement vp"
proof -
  let ?Lp = "assignment p" and ?Lq = "assignment q"
  let ?Np = "replacement vp" and ?Nq = "replacement vq"
  have "replace_tokens ?Lp ?Np (c # cs) = ?Np"
    by (rule replace_tokens_at_word [OF assms(7,8)])
  moreover have "replace_tokens ?Lq ?Nq ?Np = ?Np"
    by (rule no_token_without_last)
       (simp_all add: last_assignment replacement_facts(4) [OF assms(4)])
  ultimately show "replace_tokens ?Lq ?Nq (replace_tokens ?Lp ?Np (c # cs)) = ?Np" by simp
  have cs: "list_all not_space cs" using assms(7) by simp
  have q: "replace_tokens ?Lq ?Nq (c # cs) = c # replace_tokens ?Lq ?Nq cs"
    using assms(9) by simp
  have word: "list_all not_space (c # replace_tokens ?Lq ?Nq cs)"
    using assms(7) replace_tokens_stays_word [OF cs replacement_not_space [OF assms(6)]]
    by simp
  have "token_at ?Lp (c # replace_tokens ?Lq ?Nq cs)"
  proof (cases "\<exists>k. token_at ?Lq (drop k cs)")
    case False
    then have "replace_tokens ?Lq ?Nq cs = cs" by (intro replace_tokens_none) blast
    with assms(8) show ?thesis by simp
  next
    case True
    then obtain k where "token_at ?Lq (drop k cs)" by blast
    from replace_tokens_word [OF cs this, of ?Nq]
    obtain u t where u: "cs = u @ ?Lq @ t" "replace_tokens ?Lq ?Nq cs = u @ ?Nq" by blast
    have t: "token_at ?Lp ((c # u) @ ?Lq @ t)" using assms(8) u(1) by simp
    then have "prefix ?Lp ((c # u) @ ?Lq @ t)" unfolding token_at_def by (rule conjunct1)
    from assignment_overlap [OF assms(1,2) this assms(3)]
    have len: "length ?Lp \<le> length (c # u)" .
    have "token_at ?Lp ((c # u) @ ?Nq)"
      by (rule token_at_fits [OF t len])
         (simp_all add: replacement_facts(1) replacement_facts(2) not_space_def is_space_def)
    then show ?thesis using u(2) by simp
  qed
  from replace_tokens_at_word [OF word this] q
  show "replace_tokens ?Lp ?Np (replace_tokens ?Lq ?Nq (c # cs)) = ?Np" by simp
qed

lemma tokens_differ:
  assumes "name_prefix p" "name_prefix q" "\<not> suffix q p"
    and "token_at (assignment p) s" "token_at (assignment q) s"
  shows False
proof -
  from assms(5) obtain t where "s = [] @ assignment q @ t"
    by (auto simp: token_at_def elim: prefixE)
  moreover from assms(4) have "prefix (assignment p) s" by (simp add: token_at_def)
  ultimately have "prefix (assignment p) ([] @ assignment q @ t)" by simp
  from assignment_overlap [OF assms(1,2) this assms(3)] show False by simp
qed

lemma passes_swap_word:
  assumes "name_prefix p" "name_prefix q" "\<not> suffix q p" "\<not> suffix p q"
    and "CHR ''='' \<notin> set vp" "list_all not_space vp"
    and "CHR ''='' \<notin> set vq" "list_all not_space vq"
  shows "list_all not_space w \<Longrightarrow>
         replace_tokens (assignment q) (replacement vq)
           (replace_tokens (assignment p) (replacement vp) w)
         = replace_tokens (assignment p) (replacement vp)
             (replace_tokens (assignment q) (replacement vq) w)"
proof (induction w)
  case Nil
  then show ?case by simp
next
  case (Cons c cs)
  let ?Lp = "assignment p" and ?Lq = "assignment q"
  let ?Np = "replacement vp" and ?Nq = "replacement vq"
  have cs: "list_all not_space cs" using Cons.prems by simp
  consider (p) "token_at ?Lp (c # cs)" "\<not> token_at ?Lq (c # cs)"
    | (q) "token_at ?Lq (c # cs)" "\<not> token_at ?Lp (c # cs)"
    | (none) "\<not> token_at ?Lp (c # cs)" "\<not> token_at ?Lq (c # cs)"
    using tokens_differ [OF assms(1,2,3)] by blast
  then show ?case
  proof cases
    case p
    from word_head_token [OF assms(1,2,3,5,6,8) Cons.prems p] show ?thesis by simp
  next
    case q
    from word_head_token [OF assms(2,1,4,7,8,6) Cons.prems q] show ?thesis by simp
  next
    case none
    have 1: "\<not> token_at ?Lq (c # replace_tokens ?Lp ?Np cs)"
      using token_at_head_kept [of ?Lq c ?Lp ?Np cs] none(2)
        assignment_chars(2) [OF assms(2)] assignment_not_space [OF assms(1)]
      by (auto simp: replacement_facts)
    have 2: "\<not> token_at ?Lp (c # replace_tokens ?Lq ?Nq cs)"
      using token_at_head_kept [of ?Lp c ?Lq ?Nq cs] none(1)
        assignment_chars(2) [OF assms(1)] assignment_not_space [OF assms(2)]
      by (auto simp: replacement_facts)
    show ?thesis using none 1 2 Cons.IH [OF cs] by simp
  qed
qed



lemma passes_swap_line:
  assumes "name_prefix p" "name_prefix q" "\<not> suffix q p" "\<not> suffix p q"
    and "CHR ''='' \<notin> set vp" "list_all not_space vp"
    and "CHR ''='' \<notin> set vq" "list_all not_space vq"
  shows "replace_tokens (assignment q) (replacement vq)
           (replace_tokens (assignment p) (replacement vp) line)
         = replace_tokens (assignment p) (replacement vp)
             (replace_tokens (assignment q) (replacement vq) line)"
proof (induction "length line" arbitrary: line rule: less_induct)
  case less
  let ?P = "replace_tokens (assignment p) (replacement vp)"
  let ?Q = "replace_tokens (assignment q) (replacement vq)"
  let ?w = "takeWhile not_space line" and ?r = "dropWhile not_space line"
  have w: "list_all not_space ?w" by (auto simp: list_all_iff dest: set_takeWhileD)
  have sw: "?Q (?P ?w) = ?P (?Q ?w)" by (rule passes_swap_word [OF assms w])
  note lp = assignment_not_space [OF assms(1)] and lq = assignment_not_space [OF assms(2)]
  show ?case
  proof (cases ?r)
    case Nil
    then have "line = ?w" by (metis takeWhile_dropWhile_id append_Nil2)
    with sw show ?thesis by simp
  next
    case (Cons c r)
    then have c: "is_space c" using hd_dropWhile [of not_space line] by (auto simp: not_space_def)
    have line: "line = ?w @ c # r" using Cons by (metis takeWhile_dropWhile_id)
    then have "length line = length ?w + Suc (length r)" by (metis length_append length_Cons)
    then have "length r < length line" by simp
    then have ih: "?Q (?P r) = ?P (?Q r)" by (rule less)
    have "?Q (?P (?w @ c # r)) = ?Q (?P ?w) @ c # ?Q (?P r)"
      by (simp only: replace_tokens_space [OF lp assignment_not_Nil c]
          replace_tokens_space [OF lq assignment_not_Nil c])
    moreover have "?P (?Q (?w @ c # r)) = ?P (?Q ?w) @ c # ?P (?Q r)"
      by (simp only: replace_tokens_space [OF lp assignment_not_Nil c]
          replace_tokens_space [OF lq assignment_not_Nil c])
    ultimately have "?Q (?P (?w @ c # r)) = ?P (?Q (?w @ c # r))" using sw ih by simp
    then show ?thesis using line by simp
  qed
qed

lemma passes_fold: "passes m line = fold pass m line"
  by (induction m line rule: passes.induct) (simp_all add: pass_def)

lemma passes_permuted:
  assumes "valid_map m"
    and "\<forall>(pfx, version)\<in>set m. CHR ''='' \<notin> set version \<and> list_all not_space version"
    and "distinct (map fst m)"
    and "\<forall>p\<in>fst ` set m. \<forall>q\<in>fst ` set m. p \<noteq> q \<longrightarrow> \<not> suffix p q"
    and "mset m' = mset m"
  shows "passes m' line = passes m line"
proof -
  have "fold pass m line = fold pass m' line"
  proof (rule fold_permuted_eq [where P = "\<lambda>_. True"])
    show "mset m = mset m'" using assms(5) by simp
  next
    fix x y z assume x: "x \<in> set m" and y: "y \<in> set m"
    show "pass x (pass y z) = pass y (pass x z)"
    proof (cases "x = y")
      case True
      then show ?thesis by simp
    next
      case False
      have "fst x \<noteq> fst y"
      proof
        assume "fst x = fst y"
        with x y assms(3) have "snd x = snd y"
          by (metis eq_key_imp_eq_value prod.collapse)
        with \<open>fst x = fst y\<close> False show False by (simp add: prod_eq_iff)
      qed
      moreover have "fst x \<in> fst ` set m" "fst y \<in> fst ` set m" using x y by simp_all
      ultimately have s: "\<not> suffix (fst x) (fst y)" "\<not> suffix (fst y) (fst x)"
        using assms(4) by (blast, metis)
      have nx: "name_prefix (fst x)" "CHR ''='' \<notin> set (snd x)" "list_all not_space (snd x)"
        using x assms(1,2) by (auto simp: valid_map_def list_all_iff)
      have ny: "name_prefix (fst y)" "CHR ''='' \<notin> set (snd y)" "list_all not_space (snd y)"
        using y assms(1,2) by (auto simp: valid_map_def list_all_iff)
      show ?thesis
        unfolding pass_def
        by (rule passes_swap_line [OF ny(1) nx(1) s(1) s(2) ny(2,3) nx(2,3)])
    qed
  qed simp_all
  then show ?thesis by (simp add: passes_fold)
qed

text \<open>
  Claim C6, as stated, fails where one prefix ends with another: the pattern of the
  shorter prefix matches inside the token of the longer one, and the result depends on
  which pass comes first.
\<close>

theorem substitute_order_counterexample:
  "has_token ''BA'' ''BA_VER=1 A_VER=2'' \<and> has_token ''A'' ''BA_VER=1 A_VER=2''
   \<and> substitute [(''A'', ''9''), (''BA'', ''8'')] ''BA_VER=1 A_VER=2''
       = Some (''B'' @ replacement ''9'' @ '' '' @ replacement ''9'')
   \<and> substitute [(''BA'', ''8''), (''A'', ''9'')] ''BA_VER=1 A_VER=2''
       = Some (replacement ''8'' @ '' '' @ replacement ''9'')
   \<and> substitute [(''A'', ''9''), (''BA'', ''8'')] ''BA_VER=1 A_VER=2''
       \<noteq> substitute [(''BA'', ''8''), (''A'', ''9'')] ''BA_VER=1 A_VER=2''"
  by (simp add: sub_eval token_at_def assignment_def)

text \<open>
  Claim C6, amended. For a map of distinct names none of which ends with another, with
  plain versions that hold neither white space nor the character \<^verbatim>\<open>=\<close>, the passes
  give the same line in whatever order the items of the map are taken.
\<close>

theorem substitute_order:
  assumes "valid_map packages"
    and "\<forall>(pfx, version)\<in>set packages. CHR ''='' \<notin> set version \<and> list_all not_space version"
    and "distinct (map fst packages)"
    and "\<forall>p\<in>fst ` set packages. \<forall>q\<in>fst ` set packages. p \<noteq> q \<longrightarrow> \<not> suffix p q"
    and "mset packages' = mset packages"
  shows "substitute packages' line = substitute packages line"
proof -
  have "set packages' = set packages" using assms(5) by (rule mset_eq_setD)
  then have "valid_map packages'" using assms(1) by (simp add: valid_map_def list_all_iff)
  then show ?thesis
    using passes_permuted [OF assms] substitute_passes assms(1) by simp
qed

theorem substitute_order_witness:
  "substitute [(''SSL'', ''8''), (''CURL'', ''9'')] ''CURL_VER=1 SSL_VER=2''
     = substitute [(''CURL'', ''9''), (''SSL'', ''8'')] ''CURL_VER=1 SSL_VER=2''
   \<and> substitute [(''CURL'', ''9''), (''SSL'', ''8'')] ''CURL_VER=1 SSL_VER=2''
     = Some (replacement ''9'' @ '' '' @ replacement ''8'')"
proof -
  have v: "valid_map [(''CURL'', ''9''), (''SSL'', ''8'')]"
    by (simp add: valid_map_def name_prefix_def is_name_char_def)
  have e: "\<forall>(pfx, version)\<in>set [(''CURL'', ''9''), (''SSL'', ''8'')].
             CHR ''='' \<notin> set version \<and> list_all not_space version"
    by (simp add: not_space_def is_space_def)
  have d: "distinct (map fst [(''CURL'', ''9''), (''SSL'', ''8'')])" by simp
  have s: "\<forall>p\<in>fst ` set [(''CURL'', ''9''), (''SSL'', ''8'')].
             \<forall>q\<in>fst ` set [(''CURL'', ''9''), (''SSL'', ''8'')]. p \<noteq> q \<longrightarrow> \<not> suffix p q"
    by (simp add: suffix_Cons)
  have m: "mset [(''SSL'', ''8''), (''CURL'', ''9'')] = mset [(''CURL'', ''9''), (''SSL'', ''8'')]"
    by simp
  have r: "substitute [(''CURL'', ''9''), (''SSL'', ''8'')] ''CURL_VER=1 SSL_VER=2''
     = Some (replacement ''9'' @ '' '' @ replacement ''8'')"
    by (simp add: sub_eval)
  from substitute_order [OF v e d s m, of "''CURL_VER=1 SSL_VER=2''"] r
  show ?thesis by (rule conjI)
qed


end
